theory Spec2Isabelle
  imports Main "HOL-Library.Word"
begin

section \<open>Data of Profiler.hpp\<close>

text \<open>
  \<^verbatim>\<open>class Timer\<close>. The member \<open>name\<close> is a \<^verbatim>\<open>const char*\<close>: the timer keeps the address
  it was given, not the characters. A time point is represented by its count of
  microseconds since the epoch, the number \<^verbatim>\<open>Stop\<close> obtains from it.
\<close>

record Timer =
  name :: nat
  stopped :: bool
  start_timepoint :: "64 word"

text \<open>
  \<^verbatim>\<open>struct Result\<close>: \<^verbatim>\<open>long long\<close> is a 64-bit two's complement integer and
  \<^verbatim>\<open>uint32_t\<close> a 32-bit unsigned one. The member \<^verbatim>\<open>end\<close> is called \<open>end_time\<close>,
  since \<open>end\<close> is reserved.
\<close>

record Result =
  name :: string
  start :: "64 word"
  end_time :: "64 word"
  thread_id :: "32 word"

record Session =
  Name :: string

text \<open>
  \<^verbatim>\<open>std::ofstream\<close>, as far as the recorder uses it: the path of the file it is attached
  to (\<open>None\<close> when \<^verbatim>\<open>is_open()\<close> is false) and whether an error flag (failbit or badbit)
  is set. Every write of the source is followed by \<^verbatim>\<open>flush()\<close>, so no buffer is modelled.
\<close>

record ofstream =
  attached :: "string option"
  fail :: bool

text \<open>
  \<^verbatim>\<open>class Recorder\<close>. The four members of the source come first. \<open>mutex\<close> is true
  while the \<^verbatim>\<open>std::mutex\<close> is owned. \<open>first_record\<close> is \<open>None\<close> as long as the member
  holds no value: the constructor's initialiser list names \<open>current_session\<close> only. The last two fields are the environment the recorder acts on: the contents of the
  files, by path, and the lines sent to the stream the source names \<^verbatim>\<open>std::out\<close>.
\<close>

record Recorder =
  current_session :: "Session option"
  mutex :: bool
  output_stream :: ofstream
  first_record :: "bool option"
  files :: "string \<rightharpoonup> string"
  out :: "string list"

text \<open>
  Two ways a call can fail to return: locking a \<^verbatim>\<open>std::mutex\<close> the calling thread
  already owns (undefined behaviour, a deadlock in practice), and reading a \<^verbatim>\<open>bool\<close>
  member that holds no value. A call either returns the new state (\<open>Inr\<close>) or stops with
  the fault and the state reached at that point (\<open>Inl\<close>).
\<close>

datatype fault = MutexRelock | IndeterminateRead

type_synonym outcome = "(fault \<times> Recorder) + Recorder"

section \<open>Library operations\<close>

text \<open>\<^verbatim>\<open>std::lock_guard<std::mutex> lock(mutex)\<close> and its release at the end of the scope.\<close>

definition lock_guard :: "Recorder \<Rightarrow> outcome" where
  "lock_guard s = (if mutex s then Inl (MutexRelock, s) else Inr (s\<lparr>mutex := True\<rparr>))"

definition unlock :: "Recorder \<Rightarrow> Recorder" where
  "unlock s = s\<lparr>mutex := False\<rparr>"

definition is_open :: "ofstream \<Rightarrow> bool" where
  "is_open os = (attached os \<noteq> None)"

text \<open>
  \<^verbatim>\<open>output_stream.open(filepath)\<close>. Whether the operating system grants the file is the
  input \<open>os_ok\<close>. Opening an open stream fails and sets the error flag; a successful open
  truncates the file and clears the flags; a refused one sets the error flag.
\<close>

definition stream_open :: "string \<Rightarrow> bool \<Rightarrow> Recorder \<Rightarrow> Recorder" where
  "stream_open filepath os_ok s =
     (if is_open (output_stream s) then s\<lparr>output_stream := (output_stream s)\<lparr>fail := True\<rparr>\<rparr>
      else if os_ok then
        s\<lparr>output_stream := \<lparr>attached = Some filepath, fail = False\<rparr>,
          files := (files s)(filepath \<mapsto> [])\<rparr>
      else s\<lparr>output_stream := (output_stream s)\<lparr>fail := True\<rparr>\<rparr>)"

text \<open>
  \<^verbatim>\<open>output_stream << str; output_stream.flush()\<close>: nothing is written through a stream
  whose error flag is set; a write through a closed stream sets the flag; otherwise the
  bytes are appended to the attached file.
\<close>

definition stream_put :: "string \<Rightarrow> Recorder \<Rightarrow> Recorder" where
  "stream_put str s =
     (if fail (output_stream s) then s
      else case attached (output_stream s) of
        None \<Rightarrow> s\<lparr>output_stream := (output_stream s)\<lparr>fail := True\<rparr>\<rparr>
      | Some p \<Rightarrow>
          s\<lparr>files := (files s)(p \<mapsto> (case files s p of None \<Rightarrow> [] | Some c \<Rightarrow> c) @ str)\<rparr>)"

definition stream_close :: "Recorder \<Rightarrow> Recorder" where
  "stream_close s =
     (if is_open (output_stream s) then s\<lparr>output_stream := (output_stream s)\<lparr>attached := None\<rparr>\<rparr>
      else s\<lparr>output_stream := (output_stream s)\<lparr>fail := True\<rparr>\<rparr>)"

text \<open>\<^verbatim>\<open>std::replace(first, last, old_value, new_value)\<close>, element by element.\<close>

fun replace :: "'a \<Rightarrow> 'a \<Rightarrow> 'a list \<Rightarrow> 'a list" where
  "replace old_value new_value [] = []"
| "replace old_value new_value (x # xs) =
     (if x = old_value then new_value else x) # replace old_value new_value xs"

text \<open>
  \<^verbatim>\<open>operator<<\<close> on integers: decimal digits, most significant first, a minus sign before
  a negative value. (\<^verbatim>\<open>std::fixed\<close> and \<^verbatim>\<open>std::setprecision\<close> act on floating-point
  output only.)
\<close>

definition digit_char :: "nat \<Rightarrow> char" where
  "digit_char d = ''0123456789'' ! d"

function digits :: "nat \<Rightarrow> string" where
  "digits n = (if n < 10 then [digit_char n] else digits (n div 10) @ [digit_char (n mod 10)])"
  by pat_completeness auto
termination
  by (relation "measure id") auto

declare digits.simps [simp del]

definition show_int :: "int \<Rightarrow> string" where
  "show_int i = (if i < 0 then CHR ''-'' # digits (nat (- i)) else digits (nat i))"

section \<open>The recorder\<close>

text \<open>
  \<^verbatim>\<open>Recorder()\<close> on automatic or dynamic storage: \<open>first_record\<close> receives no value.
  \<^verbatim>\<open>static Recorder instance\<close> in \<^verbatim>\<open>Get()\<close> has static storage, which is zero-initialised
  before the constructor runs, so there the flag reads \<open>false\<close>. The argument is the
  file system the recorder starts in.
\<close>

definition Recorder_init :: "(string \<rightharpoonup> string) \<Rightarrow> Recorder" where
  "Recorder_init fs =
     \<lparr>current_session = None, mutex = False,
      output_stream = \<lparr>attached = None, fail = False\<rparr>,
      first_record = None, files = fs, out = []\<rparr>"

definition Get :: "(string \<rightharpoonup> string) \<Rightarrow> Recorder" where
  "Get fs = (Recorder_init fs)\<lparr>first_record := Some False\<rparr>"

definition WriteHeader :: "Recorder \<Rightarrow> Recorder" where
  \<open>WriteHeader s = stream_put ''{"otherData": {},"traceEvents":['' s\<close>

definition WriteFooter :: "Recorder \<Rightarrow> Recorder" where
  \<open>WriteFooter s = stream_put '']}'' s\<close>

definition EndSession :: "Recorder \<Rightarrow> outcome" where
  "EndSession s =
     (case lock_guard s of
        Inl f \<Rightarrow> Inl f
      | Inr s1 \<Rightarrow>
          Inr (unlock
            (if current_session s1 \<noteq> None
             then (stream_close (WriteFooter s1))\<lparr>current_session := None\<rparr>
             else s1)))"

definition BeginSession :: "string \<Rightarrow> string \<Rightarrow> bool \<Rightarrow> Recorder \<Rightarrow> outcome" where
  "BeginSession session_name filepath os_ok s =
     (case lock_guard s of
        Inl f \<Rightarrow> Inl f
      | Inr s1 \<Rightarrow>
          let s2 = s1\<lparr>first_record := Some True\<rparr> in
          (case (case current_session s2 of
                  None \<Rightarrow> Inr s2
                | Some cur \<Rightarrow>
                    EndSession
                      (s2\<lparr>out := out s2 @
                         [''Instrumentor::BeginSession('' @ session_name @ '') when session '' @
                          Name cur @ '' already open.'']\<rparr>)) of
            Inl f \<Rightarrow> Inl f
          | Inr s3 \<Rightarrow>
              let s4 = stream_open filepath os_ok s3 in
              Inr (unlock
                (if is_open (output_stream s4)
                 then WriteHeader (s4\<lparr>current_session := Some \<lparr>Name = session_name\<rparr>\<rparr>)
                 else s4\<lparr>out := out s4 @
                        [''Instrumentor could not open results file '' @ filepath @ ''.'']\<rparr>))))"

text \<open>
  The text \<^verbatim>\<open>WriteRecord\<close> builds for a record, after the opening \<^verbatim>\<open>{\<close> or \<^verbatim>\<open>,{\<close>.
  The subtraction is the 64-bit one and wraps around, as two's complement hardware does
  where C++ leaves the overflow undefined; both \<^verbatim>\<open>long long\<close> values print signed,
  the \<^verbatim>\<open>uint32_t\<close> prints unsigned.
\<close>

definition record_body :: "Result \<Rightarrow> string" where
  \<open>record_body result =
     ''"cat":"function",'' @
     ''"dur":'' @ show_int (sint (end_time result - start result)) @ '','' @
     ''"name":"'' @ replace (CHR 0x22) (CHR 0x27) (name result) @ ''",'' @
     ''"ph":"X",'' @
     ''"pid":0,'' @
     ''"tid":'' @ show_int (uint (thread_id result)) @ '','' @
     ''"ts":'' @ show_int (sint (start result)) @
     ''}''\<close>

text \<open>
  \<^verbatim>\<open>WriteRecord\<close> has two parts. The first (lines 86 to 106) builds the text and, on
  the way, tests and clears \<open>first_record\<close>; it holds no lock. The second (lines 108 to
  113) takes the lock and writes the text if a session is active.
\<close>

definition WriteRecord_format ::
  "Result \<Rightarrow> Recorder \<Rightarrow> (fault \<times> Recorder) + (string \<times> Recorder)" where
  "WriteRecord_format result s =
     (case first_record s of
        None \<Rightarrow> Inl (IndeterminateRead, s)
      | Some fr \<Rightarrow>
          Inr ((if fr then ''{'' else '',{'') @ record_body result,
               if fr then s\<lparr>first_record := Some False\<rparr> else s))"

definition WriteRecord_commit :: "string \<Rightarrow> Recorder \<Rightarrow> outcome" where
  "WriteRecord_commit json s =
     (case lock_guard s of
        Inl f \<Rightarrow> Inl f
      | Inr s2 \<Rightarrow>
          Inr (unlock (if current_session s2 \<noteq> None then stream_put json s2 else s2)))"

definition WriteRecord :: "Result \<Rightarrow> Recorder \<Rightarrow> outcome" where
  "WriteRecord result s =
     (case WriteRecord_format result s of
        Inl f \<Rightarrow> Inl f
      | Inr (json, s1) \<Rightarrow> WriteRecord_commit json s1)"

text \<open>Sequences of calls on one recorder; a fault ends the sequence.\<close>

datatype call = Begin string string bool | End | Write Result

fun exec :: "call \<Rightarrow> Recorder \<Rightarrow> outcome" where
  "exec (Begin n p os_ok) s = BeginSession n p os_ok s"
| "exec End s = EndSession s"
| "exec (Write r) s = WriteRecord r s"

fun run :: "call list \<Rightarrow> Recorder \<Rightarrow> outcome" where
  "run [] s = Inr s"
| "run (c # cs) s = (case exec c s of Inl f \<Rightarrow> Inl f | Inr s' \<Rightarrow> run cs s')"

text \<open>The content of the file at \<open>path\<close> once the calls have returned.\<close>

definition file_after :: "call list \<Rightarrow> Recorder \<Rightarrow> string \<Rightarrow> string option" where
  "file_after cs s path = (case run cs s of Inl f \<Rightarrow> None | Inr s' \<Rightarrow> files s' path)"

text \<open>
  Calls that overlap. Another call can run between the two parts of a \<^verbatim>\<open>WriteRecord\<close>:
  \<open>Format\<close> is its first part, whose text then waits, and \<open>Commit\<close> is the second part
  of the call that has waited longest. \<open>Whole\<close> is a call that runs from start to end.
\<close>

datatype step = Whole call | Format Result | Commit

fun step_exec ::
  "step \<Rightarrow> Recorder \<times> string list \<Rightarrow> (fault \<times> Recorder) + (Recorder \<times> string list)" where
  "step_exec (Whole c) (s, waiting) =
     (case exec c s of Inl f \<Rightarrow> Inl f | Inr s' \<Rightarrow> Inr (s', waiting))"
| "step_exec (Format r) (s, waiting) =
     (case WriteRecord_format r s of
        Inl f \<Rightarrow> Inl f
      | Inr (json, s') \<Rightarrow> Inr (s', waiting @ [json]))"
| "step_exec Commit (s, []) = Inr (s, [])"
| "step_exec Commit (s, json # waiting) =
     (case WriteRecord_commit json s of Inl f \<Rightarrow> Inl f | Inr s' \<Rightarrow> Inr (s', waiting))"

fun run_steps ::
  "step list \<Rightarrow> Recorder \<times> string list \<Rightarrow> (fault \<times> Recorder) + (Recorder \<times> string list)" where
  "run_steps [] x = Inr x"
| "run_steps (st # sts) x =
     (case step_exec st x of Inl f \<Rightarrow> Inl f | Inr x' \<Rightarrow> run_steps sts x')"

definition file_after_steps :: "step list \<Rightarrow> Recorder \<Rightarrow> string \<Rightarrow> string option" where
  "file_after_steps sts s path =
     (case run_steps sts (s, []) of Inl f \<Rightarrow> None | Inr (s', waiting) \<Rightarrow> files s' path)"

text \<open>No call is in progress and no session is open.\<close>

definition idle :: "Recorder \<Rightarrow> bool" where
  "idle s = (current_session s = None \<and> \<not> is_open (output_stream s) \<and> \<not> mutex s)"

text \<open>A session is open on the file at \<open>p\<close>, its stream is in order, no call is in progress.\<close>

definition recording :: "string \<Rightarrow> Recorder \<Rightarrow> bool" where
  "recording p s =
     (current_session s \<noteq> None \<and> attached (output_stream s) = Some p \<and>
      \<not> fail (output_stream s) \<and> \<not> mutex s)"

text \<open>The invariant of the data model: the sink is open exactly when a session is active.\<close>

definition sink_invariant :: "Recorder \<Rightarrow> bool" where
  "sink_invariant s = (is_open (output_stream s) = (current_session s \<noteq> None))"

fun holds_after :: "(Recorder \<Rightarrow> bool) \<Rightarrow> outcome \<Rightarrow> bool" where
  "holds_after P (Inr s) = P s"
| "holds_after P (Inl (f, s)) = P s"

section \<open>The timer\<close>

text \<open>
  The memory a call finds is an input: for each address, the bytes stored from there on,
  to the end of the object (a C string has its zero byte before that end). \<^verbatim>\<open>Stop\<close>
  builds the \<^verbatim>\<open>std::string\<close> of the record from the timer's pointer when it is called:
  the bytes before the first zero byte.
\<close>

type_synonym memory = "nat \<Rightarrow> string"

definition c_string :: "string \<Rightarrow> string" where
  "c_string bytes = takeWhile (\<lambda>c. c \<noteq> CHR 0x00) bytes"

text \<open>
  The readings of the clock and the hash of the thread identity are inputs too.
  \<^verbatim>\<open>Stop\<close> and the destructor return the timer together with the records they pass to
  \<^verbatim>\<open>Recorder::Get().WriteRecord\<close>, in order.
\<close>

definition Timer_ctor :: "nat \<Rightarrow> 64 word \<Rightarrow> Timer" where
  "Timer_ctor setName now = \<lparr>Timer.name = setName, stopped = False, start_timepoint = now\<rparr>"

definition Stop :: "memory \<Rightarrow> 64 word \<Rightarrow> 32 word \<Rightarrow> Timer \<Rightarrow> Timer \<times> Result list" where
  "Stop mem end_timepoint tid t =
     (t\<lparr>stopped := True\<rparr>,
      [\<lparr>name = c_string (mem (Timer.name t)), start = start_timepoint t,
        end_time = end_timepoint, thread_id = tid\<rparr>])"

definition Timer_dtor :: "memory \<Rightarrow> 64 word \<Rightarrow> 32 word \<Rightarrow> Timer \<Rightarrow> Result list" where
  "Timer_dtor mem end_timepoint tid t =
     (if stopped t = False then snd (Stop mem end_timepoint tid t) else [])"

text \<open>
  Explicit calls of \<^verbatim>\<open>Stop\<close>, each with the memory it finds, its clock reading and its
  thread hash.
\<close>

fun stops :: "(memory \<times> 64 word \<times> 32 word) list \<Rightarrow> Timer \<Rightarrow> Timer \<times> Result list" where
  "stops [] t = (t, [])"
| "stops ((mem, e, tid) # cs) t =
     (case Stop mem e tid t of
        (t1, rs1) \<Rightarrow> (case stops cs t1 of (t2, rs2) \<Rightarrow> (t2, rs1 @ rs2)))"

text \<open>
  A timer's life: construction, the explicit stops, destruction. The result is every
  record the timer passed to the recorder.
\<close>

definition Timer_lifetime ::
  "nat \<Rightarrow> 64 word \<Rightarrow> (memory \<times> 64 word \<times> 32 word) list \<Rightarrow> memory \<times> 64 word \<times> 32 word \<Rightarrow>
   Result list" where
  "Timer_lifetime setName now explicit final =
     (case stops explicit (Timer_ctor setName now) of
        (t, rs) \<Rightarrow> rs @ Timer_dtor (fst final) (fst (snd final)) (snd (snd final)) t)"

section \<open>JSON texts\<close>

text \<open>
  The grammar of RFC 8259, as a recogniser that also builds the value. A number keeps its
  lexeme and a string the bytes between its quotes, escapes undecoded. A JSON text is
  UTF-8 (RFC 8259, section 8.1): inside a string a byte from 0x80 on is accepted only as
  part of a well-formed UTF-8 sequence (RFC 3629).
\<close>

datatype json =
    JNull
  | JBool bool
  | JNumber string
  | JString string
  | JArray "json list"
  | JObject "(string \<times> json) list"

definition is_ws :: "char \<Rightarrow> bool" where
  "is_ws c = (c \<in> set [CHR 0x20, CHR 0x09, CHR 0x0A, CHR 0x0D])"

definition is_digit :: "char \<Rightarrow> bool" where
  "is_digit c = (c \<in> set ''0123456789'')"

definition is_hex :: "char \<Rightarrow> bool" where
  "is_hex c = (c \<in> set ''0123456789abcdefABCDEF'')"

fun skip_ws :: "string \<Rightarrow> string" where
  "skip_ws [] = []"
| "skip_ws (c # cs) = (if is_ws c then skip_ws cs else c # cs)"

fun strip_prefix :: "string \<Rightarrow> string \<Rightarrow> string option" where
  "strip_prefix [] s = Some s"
| "strip_prefix (p # ps) [] = None"
| "strip_prefix (p # ps) (c # cs) = (if p = c then strip_prefix ps cs else None)"

text \<open>
  \<open>starts_in rs cs\<close>: the first bytes of \<open>cs\<close> lie in the ranges \<open>rs\<close>, one after the
  other. \<open>utf8_tail c\<close>: the ranges of the bytes that must follow the first byte \<open>c\<close> of
  a UTF-8 sequence (none after an ASCII byte), or \<open>None\<close> when no sequence starts with \<open>c\<close>.
\<close>

fun starts_in :: "(nat \<times> nat) list \<Rightarrow> string \<Rightarrow> bool" where
  "starts_in [] cs = True"
| "starts_in (r # rs) [] = False"
| "starts_in (r # rs) (c # cs) =
     (fst r \<le> of_char c \<and> of_char c \<le> snd r \<and> starts_in rs cs)"

definition utf8_tail :: "char \<Rightarrow> (nat \<times> nat) list option" where
  "utf8_tail c =
     (if of_char c < (0x80 :: nat) then Some []
      else if (0xC2 :: nat) \<le> of_char c \<and> of_char c \<le> (0xDF :: nat) then Some [(0x80, 0xBF)]
      else if of_char c = (0xE0 :: nat) then Some [(0xA0, 0xBF), (0x80, 0xBF)]
      else if of_char c = (0xED :: nat) then Some [(0x80, 0x9F), (0x80, 0xBF)]
      else if (0xE1 :: nat) \<le> of_char c \<and> of_char c \<le> (0xEF :: nat)
        then Some [(0x80, 0xBF), (0x80, 0xBF)]
      else if of_char c = (0xF0 :: nat) then Some [(0x90, 0xBF), (0x80, 0xBF), (0x80, 0xBF)]
      else if (0xF1 :: nat) \<le> of_char c \<and> of_char c \<le> (0xF3 :: nat)
        then Some [(0x80, 0xBF), (0x80, 0xBF), (0x80, 0xBF)]
      else if of_char c = (0xF4 :: nat) then Some [(0x80, 0x8F), (0x80, 0xBF), (0x80, 0xBF)]
      else None)"

text \<open>
  The input of \<open>scan_string\<close> starts after the opening quotation mark; the result is
  the content and what follows the closing quotation mark.
\<close>

fun scan_string :: "string \<Rightarrow> (string \<times> string) option" where
  "scan_string [] = None"
| "scan_string (c # cs) =
     (if c = CHR 0x22 then Some ([], cs)
      else if c = CHR 0x5C then
        (case cs of
           [] \<Rightarrow> None
         | e # es \<Rightarrow>
             if e \<in> set [CHR 0x22, CHR 0x5C, CHR ''/'', CHR ''b'', CHR ''f'', CHR ''n'',
                          CHR ''r'', CHR ''t'']
             then (case scan_string es of
                     None \<Rightarrow> None
                   | Some (body, rest) \<Rightarrow> Some (c # e # body, rest))
             else if e = CHR ''u'' then
               (case es of
                  h1 # h2 # h3 # h4 # es' \<Rightarrow>
                    if is_hex h1 \<and> is_hex h2 \<and> is_hex h3 \<and> is_hex h4
                    then (case scan_string es' of
                            None \<Rightarrow> None
                          | Some (body, rest) \<Rightarrow> Some (c # e # h1 # h2 # h3 # h4 # body, rest))
                    else None
                | _ \<Rightarrow> None)
             else None)
      else if of_char c < (32 :: nat) then None
      else
        (case utf8_tail c of
           None \<Rightarrow> None
         | Some rs \<Rightarrow>
             if starts_in rs cs then
               (case scan_string (drop (length rs) cs) of
                  None \<Rightarrow> None
                | Some (body, rest) \<Rightarrow> Some (c # take (length rs) cs @ body, rest))
             else None))"

text \<open>A text made of well-formed UTF-8 sequences.\<close>

fun utf8_text :: "string \<Rightarrow> bool" where
  "utf8_text [] = True"
| "utf8_text (c # cs) =
     (case utf8_tail c of
        None \<Rightarrow> False
      | Some rs \<Rightarrow> starts_in rs cs \<and> utf8_text (drop (length rs) cs))"

definition scan_int :: "string \<Rightarrow> (string \<times> string) option" where
  "scan_int s =
     (case s of
        [] \<Rightarrow> None
      | c # cs \<Rightarrow>
          if c = CHR ''0'' then Some ([c], cs)
          else if is_digit c then Some (c # takeWhile is_digit cs, dropWhile is_digit cs)
          else None)"

definition scan_digits1 :: "string \<Rightarrow> (string \<times> string) option" where
  "scan_digits1 s =
     (if takeWhile is_digit s = [] then None
      else Some (takeWhile is_digit s, dropWhile is_digit s))"

definition scan_frac :: "string \<Rightarrow> (string \<times> string) option" where
  "scan_frac s =
     (case s of
        [] \<Rightarrow> Some ([], s)
      | c # cs \<Rightarrow>
          if c = CHR ''.'' then
            (case scan_digits1 cs of None \<Rightarrow> None | Some (ds, rest) \<Rightarrow> Some (c # ds, rest))
          else Some ([], s))"

definition scan_exp :: "string \<Rightarrow> (string \<times> string) option" where
  "scan_exp s =
     (case s of
        [] \<Rightarrow> Some ([], s)
      | c # cs \<Rightarrow>
          if c = CHR ''e'' \<or> c = CHR ''E'' then
            (case cs of
               [] \<Rightarrow> None
             | g # gs \<Rightarrow>
                 if g = CHR ''+'' \<or> g = CHR ''-'' then
                   (case scan_digits1 gs of
                      None \<Rightarrow> None
                    | Some (ds, rest) \<Rightarrow> Some (c # g # ds, rest))
                 else
                   (case scan_digits1 cs of
                      None \<Rightarrow> None
                    | Some (ds, rest) \<Rightarrow> Some (c # ds, rest)))
          else Some ([], s))"

definition scan_number :: "string \<Rightarrow> (string \<times> string) option" where
  "scan_number s =
     (case (case s of
              [] \<Rightarrow> ([], s)
            | c # cs \<Rightarrow> if c = CHR ''-'' then ([c], cs) else ([], s)) of
        (sign, s1) \<Rightarrow>
          (case scan_int s1 of
             None \<Rightarrow> None
           | Some (i, s2) \<Rightarrow>
               (case scan_frac s2 of
                  None \<Rightarrow> None
                | Some (f, s3) \<Rightarrow>
                    (case scan_exp s3 of
                       None \<Rightarrow> None
                     | Some (e, s4) \<Rightarrow> Some (sign @ i @ f @ e, s4)))))"

text \<open>
  Recursive descent. The first argument bounds the number of nested calls; every call
  consumes a character before it calls again, so the length of the text, plus one, is
  enough (\<open>parse_json\<close>). \<open>parse_elements\<close> reads the elements of an array after
  \<^verbatim>\<open>[\<close> up to and including \<^verbatim>\<open>]\<close>, \<open>parse_members\<close> the members of an object
  up to and including \<^verbatim>\<open>}\<close>.
\<close>

fun parse_value :: "nat \<Rightarrow> string \<Rightarrow> (json \<times> string) option"
  and parse_elements :: "nat \<Rightarrow> string \<Rightarrow> (json list \<times> string) option"
  and parse_members :: "nat \<Rightarrow> string \<Rightarrow> ((string \<times> json) list \<times> string) option"
where
  "parse_value 0 s = None"
| "parse_value (Suc k) s =
     (case s of
        [] \<Rightarrow> None
      | c # cs \<Rightarrow>
          if c = CHR ''{'' then
            (case skip_ws cs of
               [] \<Rightarrow> None
             | d # ds \<Rightarrow>
                 if d = CHR ''}'' then Some (JObject [], ds)
                 else (case parse_members k (d # ds) of
                         None \<Rightarrow> None
                       | Some (ms, rest) \<Rightarrow> Some (JObject ms, rest)))
          else if c = CHR ''['' then
            (case skip_ws cs of
               [] \<Rightarrow> None
             | d # ds \<Rightarrow>
                 if d = CHR '']'' then Some (JArray [], ds)
                 else (case parse_elements k (d # ds) of
                         None \<Rightarrow> None
                       | Some (vs, rest) \<Rightarrow> Some (JArray vs, rest)))
          else if c = CHR 0x22 then
            (case scan_string cs of
               None \<Rightarrow> None
             | Some (body, rest) \<Rightarrow> Some (JString body, rest))
          else if c = CHR ''t'' then
            (case strip_prefix ''rue'' cs of None \<Rightarrow> None | Some rest \<Rightarrow> Some (JBool True, rest))
          else if c = CHR ''f'' then
            (case strip_prefix ''alse'' cs of None \<Rightarrow> None | Some rest \<Rightarrow> Some (JBool False, rest))
          else if c = CHR ''n'' then
            (case strip_prefix ''ull'' cs of None \<Rightarrow> None | Some rest \<Rightarrow> Some (JNull, rest))
          else
            (case scan_number s of
               None \<Rightarrow> None
             | Some (lexeme, rest) \<Rightarrow> Some (JNumber lexeme, rest)))"
| "parse_elements 0 s = None"
| "parse_elements (Suc k) s =
     (case parse_value k s of
        None \<Rightarrow> None
      | Some (v, r) \<Rightarrow>
          (case skip_ws r of
             [] \<Rightarrow> None
           | c # cs \<Rightarrow>
               if c = CHR '','' then
                 (case parse_elements k (skip_ws cs) of
                    None \<Rightarrow> None
                  | Some (vs, rest) \<Rightarrow> Some (v # vs, rest))
               else if c = CHR '']'' then Some ([v], cs)
               else None))"
| "parse_members 0 s = None"
| "parse_members (Suc k) s =
     (case s of
        [] \<Rightarrow> None
      | q # qs \<Rightarrow>
          if q = CHR 0x22 then
            (case scan_string qs of
               None \<Rightarrow> None
             | Some (key, r0) \<Rightarrow>
                 (case skip_ws r0 of
                    [] \<Rightarrow> None
                  | c # r1 \<Rightarrow>
                      if c = CHR '':'' then
                        (case parse_value k (skip_ws r1) of
                           None \<Rightarrow> None
                         | Some (v, r2) \<Rightarrow>
                             (case skip_ws r2 of
                                [] \<Rightarrow> None
                              | d # r3 \<Rightarrow>
                                  if d = CHR '','' then
                                    (case parse_members k (skip_ws r3) of
                                       None \<Rightarrow> None
                                     | Some (ms, rest) \<Rightarrow> Some ((key, v) # ms, rest))
                                  else if d = CHR ''}'' then Some ([(key, v)], r3)
                                  else None))
                      else None))
          else None)"

text \<open>A JSON text is one value between optional white space, and nothing else.\<close>

definition parse_json :: "string \<Rightarrow> json option" where
  "parse_json s =
     (case parse_value (Suc (length s)) (skip_ws s) of
        None \<Rightarrow> None
      | Some (v, rest) \<Rightarrow> if skip_ws rest = [] then Some v else None)"

text \<open>
  With \<open>k\<close> nested calls the parser \<open>f\<close> reads nothing that it would not read, with
  the same result, with any number of nested calls from the number of bytes it consumed.
\<close>

definition enough :: "(nat \<Rightarrow> string \<Rightarrow> ('a \<times> string) option) \<Rightarrow> nat \<Rightarrow> bool" where
  "enough f k =
     (\<forall>s v r. f k s = Some (v, r) \<longrightarrow>
        length r < length s \<and> (\<forall>j. length s - length r \<le> j \<longrightarrow> f j s = Some (v, r)))"

text \<open>The elements of the array under the key \<open>traceEvents\<close> of a JSON text.\<close>

definition trace_events :: "string \<Rightarrow> json list option" where
  "trace_events s =
     (case parse_json s of
        Some (JObject ms) \<Rightarrow>
          (case map_of ms ''traceEvents'' of Some (JArray evs) \<Rightarrow> Some evs | _ \<Rightarrow> None)
      | _ \<Rightarrow> None)"

text \<open>
  Bytes that stand for themselves inside a JSON string: no quotation mark, no backslash,
  no control character.
\<close>

definition json_plain :: "char \<Rightarrow> bool" where
  "json_plain c = (c \<noteq> CHR 0x22 \<and> c \<noteq> CHR 0x5C \<and> \<not> of_char c < (32 :: nat))"

text \<open>A byte that may follow a number inside an array or an object.\<close>

definition number_end :: "char \<Rightarrow> bool" where
  "number_end c = (c = CHR '','' \<or> c = CHR ''}'' \<or> c = CHR '']'')"

section \<open>The text of a session's file\<close>

text \<open>
  The text of a session in which the records \<open>rs\<close> were written: the header, the first
  record after no comma, every later record after one comma, the footer.
\<close>

definition session_text :: "Result list \<Rightarrow> string" where
  \<open>session_text rs =
     ''{"otherData": {},"traceEvents":['' @
     (case rs of
        [] \<Rightarrow> []
      | r # rs' \<Rightarrow> ''{'' @ record_body r @ concat (map (\<lambda>r. '',{'' @ record_body r) rs')) @
     '']}''\<close>

text \<open>The JSON value a trace viewer reads for a record.\<close>

definition event_json :: "Result \<Rightarrow> json" where
  "event_json r =
     JObject
       [(''cat'', JString ''function''),
        (''dur'', JNumber (show_int (sint (end_time r - start r)))),
        (''name'', JString (replace (CHR 0x22) (CHR 0x27) (name r))),
        (''ph'', JString ''X''),
        (''pid'', JNumber ''0''),
        (''tid'', JNumber (show_int (uint (thread_id r)))),
        (''ts'', JNumber (show_int (sint (start r))))]"

text \<open>
  A name that is UTF-8 and whose bytes need no escape other than the one for the
  quotation mark: no backslash and no control character.
\<close>

definition plain_name :: "string \<Rightarrow> bool" where
  "plain_name n =
     (utf8_text n \<and> list_all (\<lambda>c. c \<noteq> CHR 0x5C \<and> \<not> of_char c < (32 :: nat)) n)"

section \<open>Basic facts\<close>

lemma digits_lt10: "n < 10 \<Longrightarrow> digits n = [digit_char n]"
  by (subst digits.simps) simp

lemma digits_ge10: "\<not> n < 10 \<Longrightarrow> digits n = digits (n div 10) @ [digit_char (n mod 10)]"
  by (subst digits.simps) simp

lemmas recorder_defs =
  BeginSession_def EndSession_def WriteRecord_def WriteRecord_format_def
  WriteRecord_commit_def lock_guard_def unlock_def
  stream_open_def stream_put_def stream_close_def is_open_def WriteHeader_def
  WriteFooter_def Let_def

lemma BeginSession_idle_granted:
  assumes "idle s"
  shows \<open>BeginSession n p True s =
    Inr (s\<lparr>current_session := Some \<lparr>Name = n\<rparr>, mutex := False,
           output_stream := \<lparr>attached = Some p, fail = False\<rparr>,
           first_record := Some True,
           files := (files s)(p \<mapsto> ''{"otherData": {},"traceEvents":['')\<rparr>)\<close>
  using assms by (simp add: idle_def recorder_defs)

lemma BeginSession_idle_refused:
  assumes "idle s"
  shows "BeginSession n p False s =
    Inr (s\<lparr>mutex := False,
           output_stream := (output_stream s)\<lparr>fail := True\<rparr>,
           first_record := Some True,
           out := out s @ [''Instrumentor could not open results file '' @ p @ ''.'']\<rparr>)"
  using assms by (simp add: idle_def recorder_defs)

text \<open>
  With a session open, \<^verbatim>\<open>BeginSession\<close> prints its warning and then calls
  \<^verbatim>\<open>EndSession\<close> while it owns the mutex: the call stops there, whatever the
  operating system would have answered.
\<close>

lemma BeginSession_active:
  assumes "current_session s = Some cur" and "\<not> mutex s"
  shows "BeginSession n p os_ok s =
    Inl (MutexRelock,
         s\<lparr>mutex := True, first_record := Some True,
           out := out s @ [''Instrumentor::BeginSession('' @ n @ '') when session '' @
                           Name cur @ '' already open.'']\<rparr>)"
  using assms by (simp add: recorder_defs)

lemma idle_Recorder_init: "idle (Recorder_init fs)"
  by (simp add: idle_def Recorder_init_def is_open_def)

lemma idle_Get: "idle (Get fs)"
  by (simp add: idle_def Get_def Recorder_init_def is_open_def)

lemma exec_returns_settled:
  assumes "exec c s = Inr s'" and "sink_invariant s"
  shows "\<not> mutex s' \<and> sink_invariant s'"
  using assms
  by (cases c)
    (auto simp add: sink_invariant_def recorder_defs split: if_splits option.splits sum.splits)

lemma exec_keeps_flag:
  assumes "exec c s = Inr s'" and "first_record s \<noteq> None"
  shows "first_record s' \<noteq> None"
  using assms
  by (cases c)
    (auto simp add: recorder_defs split: if_splits option.splits sum.splits)

lemma run_returns_settled:
  assumes "run cs s = Inr s'" and "sink_invariant s" and "\<not> mutex s"
  shows "\<not> mutex s' \<and> sink_invariant s'"
  using assms
proof (induction cs arbitrary: s)
  case Nil
  then show ?case by simp
next
  case (Cons c cs)
  from Cons.prems(1) obtain s1 where e: "exec c s = Inr s1" and r: "run cs s1 = Inr s'"
    by (auto split: sum.splits)
  have "\<not> mutex s1" and "sink_invariant s1"
    using exec_returns_settled [OF e Cons.prems(2)] by simp_all
  then show ?case
    using Cons.IH [OF r] by simp
qed

lemma run_keeps_flag:
  assumes "run cs s = Inr s'" and "first_record s \<noteq> None"
  shows "first_record s' \<noteq> None"
  using assms
proof (induction cs arbitrary: s)
  case Nil
  then show ?case by simp
next
  case (Cons c cs)
  from Cons.prems(1) obtain s1 where e: "exec c s = Inr s1" and r: "run cs s1 = Inr s'"
    by (auto split: sum.splits)
  have "first_record s1 \<noteq> None"
    using e Cons.prems(2) by (rule exec_keeps_flag)
  then show ?case
    using Cons.IH [OF r] by simp
qed

text \<open>
  After any calls that returned, on a new recorder or on the one of \<^verbatim>\<open>Get()\<close>, a state
  with no session is idle; on the recorder of \<^verbatim>\<open>Get()\<close> the flag holds a value throughout.
\<close>

lemma idle_after_calls:
  assumes "run cs (Recorder_init fs) = Inr s \<or> run cs (Get fs) = Inr s"
    and "current_session s = None"
  shows "idle s"
proof -
  have i: "sink_invariant (Recorder_init fs)" "\<not> mutex (Recorder_init fs)"
    "sink_invariant (Get fs)" "\<not> mutex (Get fs)"
    by (simp_all add: sink_invariant_def Recorder_init_def Get_def is_open_def)
  from assms(1) have "\<not> mutex s \<and> sink_invariant s"
    using run_returns_settled [of cs "Recorder_init fs" s] run_returns_settled [of cs "Get fs" s] i
    by blast
  with assms(2) show ?thesis
    by (simp add: idle_def sink_invariant_def)
qed

lemma flag_set_after_calls:
  assumes "run cs (Get fs) = Inr s"
  shows "first_record s \<noteq> None"
  using assms by (rule run_keeps_flag) (simp add: Get_def)

lemma writes_no_session:
  assumes "current_session s = None" and "\<not> mutex s" and "first_record s = Some fr"
  shows "run (map Write rs) s = Inr (if rs = [] then s else s\<lparr>first_record := Some False\<rparr>)"
  using assms
proof (induction rs arbitrary: s fr)
  case Nil
  then show ?case by simp
next
  case (Cons r rs)
  let ?s = "s\<lparr>first_record := Some False\<rparr>"
  have w: "WriteRecord r s = Inr ?s"
    using Cons.prems by (simp add: recorder_defs)
  have "run (map Write rs) ?s = Inr (if rs = [] then ?s else ?s\<lparr>first_record := Some False\<rparr>)"
    by (rule Cons.IH [where fr = False]) (use Cons.prems in simp_all)
  then show ?case using w by simp
qed

lemma length_replace: "length (replace a b xs) = length xs"
  by (induction xs) auto

lemma nth_replace:
  "i < length xs \<Longrightarrow> replace a b xs ! i = (if xs ! i = a then b else xs ! i)"
  by (induction xs arbitrary: i) (auto simp add: nth_Cons split: nat.splits)

lemma length_stops: "length (snd (stops cs t)) = length cs"
proof (induction cs arbitrary: t)
  case Nil
  then show ?case by simp
next
  case (Cons c cs)
  obtain mem e tid where c: "c = (mem, e, tid)" by (cases c)
  show ?case
    using Cons.IH [of "t\<lparr>stopped := True\<rparr>"]
    by (cases "stops cs (t\<lparr>stopped := True\<rparr>)") (simp add: c Stop_def)
qed

section \<open>The scenario of the specification\<close>

text \<open>
  C2. From any state with no session open, the calls \<^verbatim>\<open>BeginSession("T","out.json")\<close>
  (the file is granted), \<^verbatim>\<open>WriteRecord\<close> of the record named A with start 1000, end
  1500 and thread 7, and \<^verbatim>\<open>EndSession()\<close> leave exactly the bytes below in out.json:
  dur is end minus start, ts is start, pid is the literal 0, ph is X, and the fields come
  in this order.
\<close>

theorem scenario_bytes:
  assumes "idle s"
  shows \<open>file_after
           [Begin ''T'' ''out.json'' True,
            Write \<lparr>name = ''A'', start = 1000, end_time = 1500, thread_id = 7\<rparr>,
            End] s ''out.json'' =
         Some ''{"otherData": {},"traceEvents":[{"cat":"function","dur":500,"name":"A","ph":"X","pid":0,"tid":7,"ts":1000}]}''\<close>
  using assms
  by (simp add: file_after_def idle_def recorder_defs record_body_def show_int_def
      digits_lt10 digits_ge10 digit_char_def)

theorem scenario_bytes_witness:
  \<open>idle (Recorder_init Map.empty) \<and>
   file_after
     [Begin ''T'' ''out.json'' True,
      Write \<lparr>name = ''A'', start = 1000, end_time = 1500, thread_id = 7\<rparr>,
      End] (Recorder_init Map.empty) ''out.json'' =
   Some ''{"otherData": {},"traceEvents":[{"cat":"function","dur":500,"name":"A","ph":"X","pid":0,"tid":7,"ts":1000}]}''\<close>
  using scenario_bytes [of "Recorder_init Map.empty"] idle_Recorder_init [of Map.empty]
  by simp

section \<open>Beginning a session while one is open\<close>

text \<open>
  C3. \<^verbatim>\<open>BeginSession("A","a.json")\<close> followed by \<^verbatim>\<open>BeginSession("B","b.json")\<close>, on a
  new recorder: the second call prints the warning and stops at the lock of
  \<^verbatim>\<open>EndSession\<close>. At that point a.json holds the header and no footer, its stream is
  still open, and b.json does not exist.
\<close>

theorem second_begin_stops_at_lock:
  \<open>run [Begin ''A'' ''a.json'' True, Begin ''B'' ''b.json'' True] (Recorder_init Map.empty) =
     Inl (MutexRelock,
          \<lparr>current_session = Some \<lparr>Name = ''A''\<rparr>, mutex = True,
           output_stream = \<lparr>attached = Some ''a.json'', fail = False\<rparr>,
           first_record = Some True,
           files = [''a.json'' \<mapsto> ''{"otherData": {},"traceEvents":[''],
           out = [''Instrumentor::BeginSession(B) when session A already open.'']\<rparr>)\<close>
  by (simp add: recorder_defs Recorder_init_def)

section \<open>The timer\<close>

text \<open>
  Every call of \<^verbatim>\<open>Stop()\<close> passes one record to the recorder, whatever the flag
  \<open>stopped\<close> says: \<open>n\<close> calls pass \<open>n\<close> records. Each record takes its name from the
  memory its call finds.
\<close>

lemma stops_forward_each_time:
  "snd (stops [(mem1, e1, tid1), (mem2, e2, tid2)] t) =
     [\<lparr>name = c_string (mem1 (Timer.name t)), start = start_timepoint t, end_time = e1,
       thread_id = tid1\<rparr>,
      \<lparr>name = c_string (mem2 (Timer.name t)), start = start_timepoint t, end_time = e2,
       thread_id = tid2\<rparr>]
   \<and> length (snd (stops cs t)) = length cs"
  by (simp add: length_stops Stop_def)

text \<open>
  A timer that is destroyed without an explicit \<^verbatim>\<open>Stop()\<close> passes one record, from its
  destructor; a timer stopped explicitly once passes the record of that call, and its
  destructor passes none.
\<close>

lemma timer_stopped_at_most_once:
  "Timer_lifetime setName now [] (mem, e, tid) =
     [\<lparr>name = c_string (mem setName), start = now, end_time = e, thread_id = tid\<rparr>] \<and>
   Timer_lifetime setName now [(mem1, e1, tid1)] (mem, e, tid) =
     [\<lparr>name = c_string (mem1 setName), start = now, end_time = e1, thread_id = tid1\<rparr>]"
  by (simp add: Timer_lifetime_def Timer_ctor_def Timer_dtor_def Stop_def)

text \<open>
  C4. \<^verbatim>\<open>Timer t("A"); t.Stop(); t.Stop();\<close> with the clock at 1000, 1500 and 1700, the
  characters A and a zero byte at the address 64: the second \<^verbatim>\<open>Stop()\<close> passes a second
  record, and a session that receives the two has two events in its file.
\<close>

theorem stop_twice_forwards_two_records:
  \<open>snd (stops [((\<lambda>a. if a = 64 then [CHR ''A'', CHR 0x00] else []), 1500, 7),
               ((\<lambda>a. if a = 64 then [CHR ''A'', CHR 0x00] else []), 1700, 7)]
         (Timer_ctor 64 1000)) =
     [\<lparr>name = ''A'', start = 1000, end_time = 1500, thread_id = 7\<rparr>,
      \<lparr>name = ''A'', start = 1000, end_time = 1700, thread_id = 7\<rparr>] \<and>
   file_after
     (Begin ''T'' ''out.json'' True #
      map Write
        (snd (stops [((\<lambda>a. if a = 64 then [CHR ''A'', CHR 0x00] else []), 1500, 7),
                     ((\<lambda>a. if a = 64 then [CHR ''A'', CHR 0x00] else []), 1700, 7)]
               (Timer_ctor 64 1000))) @ [End])
     (Get Map.empty) ''out.json'' =
   Some (''{"otherData": {},"traceEvents":['' @
         ''{"cat":"function","dur":500,"name":"A","ph":"X","pid":0,"tid":7,"ts":1000}'' @
         '',{"cat":"function","dur":700,"name":"A","ph":"X","pid":0,"tid":7,"ts":1000}'' @
         '']}'')\<close>
  by (simp add: Stop_def Timer_ctor_def c_string_def file_after_def Get_def Recorder_init_def
      recorder_defs record_body_def show_int_def digits_lt10 digits_ge10 digit_char_def)

text \<open>
  C5. The same timer, stopped explicitly at 1500 and at 1700 and destroyed at 1900: over
  its life it passes two records to the recorder, not one.
\<close>

theorem lifetime_with_two_stops_two_records:
  \<open>Timer_lifetime 64 1000
     [((\<lambda>a. if a = 64 then [CHR ''A'', CHR 0x00] else []), 1500, 7),
      ((\<lambda>a. if a = 64 then [CHR ''A'', CHR 0x00] else []), 1700, 7)]
     ((\<lambda>a. if a = 64 then [CHR ''A'', CHR 0x00] else []), 1900, 7) =
   [\<lparr>name = ''A'', start = 1000, end_time = 1500, thread_id = 7\<rparr>,
    \<lparr>name = ''A'', start = 1000, end_time = 1700, thread_id = 7\<rparr>]\<close>
  by (simp add: Timer_lifetime_def Timer_ctor_def Timer_dtor_def Stop_def c_string_def)

section \<open>Records outside a session\<close>

text \<open>
  With no session open, and the flag \<open>first_record\<close> holding a value (as it does in the
  recorder of \<^verbatim>\<open>Get()\<close> and after any \<^verbatim>\<open>BeginSession\<close>), \<^verbatim>\<open>WriteRecord\<close> returns
  normally for every record; no file changes, nothing is printed, no session appears and
  the stream is untouched. The one member it changes is the flag.
\<close>

lemma write_without_session_dropped:
  assumes "current_session s = None" and "\<not> mutex s" and "first_record s = Some fr"
  shows "WriteRecord r s = Inr (s\<lparr>first_record := Some False\<rparr>)
       \<and> file_after [Write r] s = files s
       \<and> holds_after (\<lambda>s'. out s' = out s \<and> current_session s' = None \<and>
             output_stream s' = output_stream s) (WriteRecord r s)"
  using assms by (auto simp add: file_after_def recorder_defs)


text \<open>
  C7. When the file is refused, \<^verbatim>\<open>BeginSession\<close> returns like any other call, prints
  the error line, opens no session and writes to no file. Every \<^verbatim>\<open>WriteRecord\<close> after
  it returns and leaves the files and the printed lines as they are; a later
  \<^verbatim>\<open>BeginSession\<close> whose file is granted opens its session.
\<close>

theorem refused_open_disables_recording:
  assumes "idle s"
  shows "\<exists>s1. BeginSession n p False s = Inr s1 \<and> idle s1 \<and> files s1 = files s \<and>
           out s1 = out s @ [''Instrumentor could not open results file '' @ p @ ''.''] \<and>
           (\<forall>rs. \<exists>s2. run (map Write rs) s1 = Inr s2 \<and> idle s2 \<and> files s2 = files s \<and>
                   out s2 = out s1 \<and>
                   (\<exists>s3. BeginSession n' p' True s2 = Inr s3 \<and>
                          current_session s3 = Some \<lparr>Name = n'\<rparr>))"
proof -
  let ?s1 = "s\<lparr>mutex := False, output_stream := (output_stream s)\<lparr>fail := True\<rparr>,
           first_record := Some True,
           out := out s @ [''Instrumentor could not open results file '' @ p @ ''.'']\<rparr>"
  have b: "BeginSession n p False s = Inr ?s1"
    using assms by (rule BeginSession_idle_refused)
  have i1: "idle ?s1"
    using assms by (simp add: idle_def is_open_def)
  have "\<exists>s2. run (map Write rs) ?s1 = Inr s2 \<and> idle s2 \<and> files s2 = files s \<and>
             out s2 = out ?s1 \<and>
             (\<exists>s3. BeginSession n' p' True s2 = Inr s3 \<and>
                    current_session s3 = Some \<lparr>Name = n'\<rparr>)" for rs
  proof -
    let ?s2 = "if rs = [] then ?s1 else ?s1\<lparr>first_record := Some False\<rparr>"
    have r: "run (map Write rs) ?s1 = Inr ?s2"
      by (rule writes_no_session [where fr = True]) (use assms in \<open>simp_all add: idle_def\<close>)
    have i2: "idle ?s2"
      using i1 by (simp add: idle_def)
    show ?thesis
      using r i2 BeginSession_idle_granted [OF i2, of n' p'] by auto
  qed
  with b i1 show ?thesis by auto
qed

theorem refused_open_disables_recording_witness:
  "idle (Get Map.empty) \<and>
   run [Begin ''T'' ''out.json'' False,
        Write \<lparr>name = ''A'', start = 1000, end_time = 1500, thread_id = 7\<rparr>] (Get Map.empty) =
     Inr ((Get Map.empty)
            \<lparr>output_stream := \<lparr>attached = None, fail = True\<rparr>,
             out := [''Instrumentor could not open results file out.json.'']\<rparr>)"
  using refused_open_disables_recording [of "Get Map.empty" "''T''" "''out.json''"]
    idle_Get [of Map.empty]
  by (simp add: Get_def Recorder_init_def recorder_defs)

section \<open>The name of a record\<close>

text \<open>
  C8. In a session, \<^verbatim>\<open>WriteRecord\<close> appends the record to the file with a name of the
  same length as the record's, in which every quotation mark has become an apostrophe
  and every other byte is the byte of the record's name: nothing else is escaped. The
  name Foo"Bar is written Foo'Bar.
\<close>

theorem name_quotes_replaced:
  assumes "recording p s" and "first_record s = Some fr" and "files s p = Some old"
  shows
   \<open>\<exists>written.
      file_after [Write r] s p =
        Some (old @ (if fr then ''{'' else '',{'') @
          ''"cat":"function","dur":'' @ show_int (sint (end_time r - start r)) @
          '',"name":"'' @ written @
          ''","ph":"X","pid":0,"tid":'' @ show_int (uint (thread_id r)) @
          '',"ts":'' @ show_int (sint (start r)) @ ''}'') \<and>
      length written = length (name r) \<and>
      (\<forall>i < length (name r).
         written ! i = (if name r ! i = CHR 0x22 then CHR 0x27 else name r ! i)) \<and>
      (name r = ''Foo"Bar'' \<longrightarrow> written = ''Foo'' @ [CHR 0x27] @ ''Bar'')\<close>
proof (intro exI [of _ "replace (CHR 0x22) (CHR 0x27) (name r)"] conjI)
  show \<open>file_after [Write r] s p =
        Some (old @ (if fr then ''{'' else '',{'') @
          ''"cat":"function","dur":'' @ show_int (sint (end_time r - start r)) @
          '',"name":"'' @ replace (CHR 0x22) (CHR 0x27) (name r) @
          ''","ph":"X","pid":0,"tid":'' @ show_int (uint (thread_id r)) @
          '',"ts":'' @ show_int (sint (start r)) @ ''}'')\<close>
    using assms by (simp add: file_after_def recording_def recorder_defs record_body_def)
  show "length (replace (CHR 0x22) (CHR 0x27) (name r)) = length (name r)"
    by (rule length_replace)
  show "\<forall>i < length (name r). replace (CHR 0x22) (CHR 0x27) (name r) ! i =
          (if name r ! i = CHR 0x22 then CHR 0x27 else name r ! i)"
    by (simp add: nth_replace)
  show \<open>name r = ''Foo"Bar'' \<longrightarrow>
        replace (CHR 0x22) (CHR 0x27) (name r) = ''Foo'' @ [CHR 0x27] @ ''Bar''\<close>
    by simp
qed

theorem name_quotes_replaced_witness:
  \<open>recording ''out.json''
     \<lparr>current_session = Some \<lparr>Name = ''T''\<rparr>, mutex = False,
      output_stream = \<lparr>attached = Some ''out.json'', fail = False\<rparr>,
      first_record = Some True,
      files = [''out.json'' \<mapsto> ''{"otherData": {},"traceEvents":[''], out = []\<rparr> \<and>
   file_after [Write \<lparr>name = ''Foo"Bar'', start = 1000, end_time = 1500, thread_id = 7\<rparr>]
     \<lparr>current_session = Some \<lparr>Name = ''T''\<rparr>, mutex = False,
      output_stream = \<lparr>attached = Some ''out.json'', fail = False\<rparr>,
      first_record = Some True,
      files = [''out.json'' \<mapsto> ''{"otherData": {},"traceEvents":[''], out = []\<rparr>
     ''out.json'' =
   Some (''{"otherData": {},"traceEvents":[{"cat":"function","dur":500,"name":"Foo'' @
         [CHR 0x27] @ ''Bar","ph":"X","pid":0,"tid":7,"ts":1000}'')\<close>
  using name_quotes_replaced
    [of "''out.json''"
        "\<lparr>current_session = Some \<lparr>Name = ''T''\<rparr>, mutex = False,
          output_stream = \<lparr>attached = Some ''out.json'', fail = False\<rparr>,
          first_record = Some True,
          files = [''out.json'' \<mapsto> ''{'' @ [CHR 0x22] @ ''otherData'' @ [CHR 0x22] @
                   '': {},'' @ [CHR 0x22] @ ''traceEvents'' @ [CHR 0x22] @ '':[''],
          out = []\<rparr>"
        True
        "''{'' @ [CHR 0x22] @ ''otherData'' @ [CHR 0x22] @ '': {},'' @ [CHR 0x22] @
         ''traceEvents'' @ [CHR 0x22] @ '':[''"
        "\<lparr>name = ''Foo'' @ [CHR 0x22] @ ''Bar'', start = 1000, end_time = 1500,
          thread_id = 7\<rparr>"]
  by (auto simp add: recording_def show_int_def digits_lt10 digits_ge10 digit_char_def)

section \<open>The invariant of the sink\<close>

text \<open>
  C9. The output stream is open exactly when a session is active: this holds for a new
  recorder, and every public operation that starts in a state where it holds leaves it
  holding, \<^verbatim>\<open>BeginSession\<close> with the file granted or refused, \<^verbatim>\<open>EndSession\<close> and
  \<^verbatim>\<open>WriteRecord\<close>, also in the state where a call stops without returning.
\<close>

theorem sink_invariant_kept:
  "sink_invariant (Recorder_init fs) \<and> sink_invariant (Get fs) \<and>
   (sink_invariant s \<longrightarrow>
      holds_after sink_invariant (BeginSession n p os_ok s) \<and>
      holds_after sink_invariant (EndSession s) \<and>
      holds_after sink_invariant (WriteRecord r s))"
  by (auto simp add: sink_invariant_def Recorder_init_def Get_def recorder_defs
      split: option.splits)

theorem sink_invariant_kept_witness:
  "sink_invariant (Get Map.empty) \<and>
   BeginSession ''T'' ''out.json'' False (Get Map.empty) =
     Inr ((Get Map.empty)
            \<lparr>output_stream := \<lparr>attached = None, fail = True\<rparr>, first_record := Some True,
             out := [''Instrumentor could not open results file out.json.'']\<rparr>) \<and>
   sink_invariant ((Get Map.empty)
            \<lparr>output_stream := \<lparr>attached = None, fail = True\<rparr>, first_record := Some True,
             out := [''Instrumentor could not open results file out.json.'']\<rparr>)"
  using sink_invariant_kept [of Map.empty "Get Map.empty" "''T''" "''out.json''" False]
    BeginSession_idle_refused [OF idle_Get, of "''T''" "''out.json''" Map.empty]
  by (simp add: Get_def Recorder_init_def)

section \<open>The flag before the first session\<close>

text \<open>
  C10. On a recorder that was just constructed, the first call of \<^verbatim>\<open>WriteRecord\<close> tests
  \<open>first_record\<close> although no value was ever stored in it.
\<close>

theorem write_before_begin_reads_unset_flag:
  "run [Write \<lparr>name = ''A'', start = 1000, end_time = 1500, thread_id = 7\<rparr>]
       (Recorder_init Map.empty) = Inl (IndeterminateRead, Recorder_init Map.empty)"
  by (simp add: WriteRecord_def WriteRecord_format_def Recorder_init_def)

section \<open>Decimal numbers are JSON numbers\<close>

lemma lt10_cases:
  "d < 10 \<Longrightarrow>
   d = 0 \<or> d = 1 \<or> d = 2 \<or> d = 3 \<or> d = 4 \<or> d = 5 \<or> d = 6 \<or> d = 7 \<or> d = 8 \<or> d = (9::nat)"
  by arith

lemma digit_char_is_digit: "d < 10 \<Longrightarrow> is_digit (digit_char d)"
  by (drule lt10_cases) (auto simp add: digit_char_def is_digit_def)

lemma digit_char_zero: "d < 10 \<Longrightarrow> digit_char d = CHR ''0'' \<Longrightarrow> d = 0"
  by (drule lt10_cases) (auto simp add: digit_char_def)

lemma digits_nonempty: "digits n \<noteq> []"
  by (subst digits.simps) simp

lemma digits_zero: "digits 0 = ''0''"
  by (simp add: digits_lt10 digit_char_def)

lemma digits_all: "list_all is_digit (digits n)"
proof (induction n rule: digits.induct)
  case (1 n)
  show ?case
  proof (cases "n < 10")
    case True
    then show ?thesis by (simp add: digits_lt10 digit_char_is_digit)
  next
    case False
    then show ?thesis using 1 by (simp add: digits_ge10 digit_char_is_digit)
  qed
qed

text \<open>No leading zero.\<close>

lemma digits_hd: "0 < n \<Longrightarrow> hd (digits n) \<noteq> CHR ''0''"
proof (induction n rule: digits.induct)
  case (1 n)
  show ?case
  proof (cases "n < 10")
    case True
    then show ?thesis
      using "1.prems" digit_char_zero [of n] by (auto simp add: digits_lt10)
  next
    case False
    then have "0 < n div 10" by simp
    then show ?thesis
      using 1 False by (simp add: digits_ge10 digits_nonempty)
  qed
qed

lemma takeWhile_then: "list_all P xs \<Longrightarrow> \<not> P c \<Longrightarrow> takeWhile P (xs @ c # ys) = xs"
  by (induction xs) auto

lemma dropWhile_then: "list_all P xs \<Longrightarrow> \<not> P c \<Longrightarrow> dropWhile P (xs @ c # ys) = c # ys"
  by (induction xs) auto

lemma scan_int_digits:
  assumes "\<not> is_digit c"
  shows "scan_int (digits n @ c # rest) = Some (digits n, c # rest)"
proof (cases "n = 0")
  case True
  then show ?thesis by (simp add: digits_zero scan_int_def)
next
  case False
  obtain h t where ht: "digits n = h # t"
    using digits_nonempty [of n] by (cases "digits n") auto
  have h0: "h \<noteq> CHR ''0''"
    using digits_hd [of n] False ht by simp
  have hd: "is_digit h" and td: "list_all is_digit t"
    using digits_all [of n] ht by simp_all
  show ?thesis
    using h0 hd td assms by (simp add: ht scan_int_def takeWhile_then dropWhile_then)
qed

lemma show_int_head: "\<exists>h t. show_int i = h # t \<and> (h = CHR ''-'' \<or> is_digit h)"
proof (cases "i < 0")
  case True
  then show ?thesis by (simp add: show_int_def)
next
  case False
  obtain h t where ht: "digits (nat i) = h # t"
    using digits_nonempty [of "nat i"] by (cases "digits (nat i)") auto
  have "is_digit h"
    using digits_all [of "nat i"] ht by simp
  then show ?thesis
    using False ht by (simp add: show_int_def)
qed

lemma scan_number_show_int:
  assumes "number_end c"
  shows "scan_number (show_int i @ c # rest) = Some (show_int i, c # rest)"
proof -
  have nd: "\<not> is_digit c"
    using assms by (auto simp add: number_end_def is_digit_def)
  have fr: "scan_frac (c # rest) = Some ([], c # rest)"
    using assms by (auto simp add: number_end_def scan_frac_def)
  have ex: "scan_exp (c # rest) = Some ([], c # rest)"
    using assms by (auto simp add: number_end_def scan_exp_def)
  show ?thesis
  proof (cases "i < 0")
    case True
    then show ?thesis
      using scan_int_digits [OF nd, of "nat (- i)" rest] fr ex
      by (simp add: show_int_def scan_number_def)
  next
    case False
    obtain h t where ht: "digits (nat i) = h # t"
      using digits_nonempty [of "nat i"] by (cases "digits (nat i)") auto
    have "is_digit h"
      using digits_all [of "nat i"] ht by simp
    then have "h \<noteq> CHR ''-''"
      by (auto simp add: is_digit_def)
    then show ?thesis
      using False scan_int_digits [OF nd, of "nat i" rest] fr ex ht
      by (simp add: show_int_def scan_number_def)
  qed
qed

lemma parse_value_show_int:
  assumes "number_end c"
  shows "parse_value (Suc k) (show_int i @ c # rest) = Some (JNumber (show_int i), c # rest)"
proof -
  obtain h t where ht: "show_int i = h # t" and h: "h = CHR ''-'' \<or> is_digit h"
    using show_int_head [of i] by blast
  have "h \<noteq> CHR ''{'' \<and> h \<noteq> CHR ''['' \<and> h \<noteq> CHR 0x22 \<and> h \<noteq> CHR ''t'' \<and>
        h \<noteq> CHR ''f'' \<and> h \<noteq> CHR ''n''"
    using h by (auto simp add: is_digit_def)
  moreover have "scan_number (h # t @ c # rest) = Some (h # t, c # rest)"
    using scan_number_show_int [OF assms, of i rest] by (simp add: ht)
  ultimately show ?thesis by (simp add: ht)
qed

lemma skip_ws_show_int: "skip_ws (show_int i @ rest) = show_int i @ rest"
proof -
  obtain h t where ht: "show_int i = h # t" and h: "h = CHR ''-'' \<or> is_digit h"
    using show_int_head [of i] by blast
  have "\<not> is_ws h"
    using h by (auto simp add: is_digit_def is_ws_def)
  then show ?thesis by (simp add: ht)
qed

section \<open>The text of a session is a JSON text\<close>

lemma utf8_tail_ascii [simp]: "of_char c < (128 :: nat) \<Longrightarrow> utf8_tail c = Some []"
  by (simp add: utf8_tail_def)

lemma starts_in_length: "starts_in rs cs \<Longrightarrow> length rs \<le> length cs"
  by (induction rs cs rule: starts_in.induct) auto

lemma starts_in_append: "starts_in rs cs \<Longrightarrow> starts_in rs (cs @ ys)"
  by (induction rs cs rule: starts_in.induct) auto

lemma scan_string_plain:
  "utf8_text b \<Longrightarrow> list_all json_plain b \<Longrightarrow> scan_string (b @ CHR 0x22 # rest) = Some (b, rest)"
proof (induction "length b" arbitrary: b rule: less_induct)
  case less
  show ?case
  proof (cases b)
    case Nil
    then show ?thesis by simp
  next
    case (Cons c cs)
    with less.prems obtain rs where t: "utf8_tail c = Some rs" and s: "starts_in rs cs"
      and u: "utf8_text (drop (length rs) cs)"
      by (auto split: option.splits)
    have c: "c \<noteq> CHR 0x22" "c \<noteq> CHR 0x5C" "\<not> of_char c < (32 :: nat)"
      using less.prems(2) Cons by (simp_all add: json_plain_def)
    have n: "length rs \<le> length cs"
      using s by (rule starts_in_length)
    have p: "list_all json_plain (drop (length rs) cs)"
      using less.prems(2) Cons by (auto simp add: list_all_iff dest: in_set_dropD)
    have "scan_string (drop (length rs) cs @ CHR 0x22 # rest) = Some (drop (length rs) cs, rest)"
      using u p by (intro less.hyps) (simp add: Cons)
    then show ?thesis
      using c t n starts_in_append [OF s, of "CHR 0x22 # rest"] by (simp add: Cons)
  qed
qed

lemma replace_map: "replace a b xs = map (\<lambda>x. if x = a then b else x) xs"
  by (induction xs) auto

lemma utf8_tail_ranges: "utf8_tail c = Some rs \<Longrightarrow> \<forall>r \<in> set rs. 128 \<le> fst r"
  by (auto simp add: utf8_tail_def split: if_splits)

lemma utf8_tail_quote: "utf8_tail (if c = CHR 0x22 then CHR 0x27 else c) = utf8_tail c"
  by (simp add: utf8_tail_def)

lemma starts_in_replace:
  "\<forall>r \<in> set rs. 128 \<le> fst r \<Longrightarrow>
   starts_in rs (replace (CHR 0x22) (CHR 0x27) cs) = starts_in rs cs"
  by (induction rs cs rule: starts_in.induct) auto

lemma utf8_text_replace:
  "utf8_text n \<Longrightarrow> utf8_text (replace (CHR 0x22) (CHR 0x27) n)"
proof (induction "length n" arbitrary: n rule: less_induct)
  case less
  show ?case
  proof (cases n)
    case Nil
    then show ?thesis by simp
  next
    case (Cons c cs)
    with less.prems obtain rs where t: "utf8_tail c = Some rs" and s: "starts_in rs cs"
      and u: "utf8_text (drop (length rs) cs)"
      by (auto split: option.splits)
    have "utf8_text (replace (CHR 0x22) (CHR 0x27) (drop (length rs) cs))"
      using u by (intro less.hyps) (simp add: Cons)
    then have "utf8_text (drop (length rs) (replace (CHR 0x22) (CHR 0x27) cs))"
      by (simp add: replace_map drop_map)
    moreover have "starts_in rs (replace (CHR 0x22) (CHR 0x27) cs)"
      using s utf8_tail_ranges [OF t] by (simp add: starts_in_replace)
    moreover have "utf8_tail (if c = CHR 0x22 then CHR 0x27 else c) = Some rs"
      using t by (simp only: utf8_tail_quote)
    ultimately show ?thesis
      by (simp add: Cons del: utf8_tail_quote)
  qed
qed

lemma plain_after_replace:
  assumes "plain_name n"
  shows "utf8_text (replace (CHR 0x22) (CHR 0x27) n)"
    and "list_all json_plain (replace (CHR 0x22) (CHR 0x27) n)"
proof -
  show "utf8_text (replace (CHR 0x22) (CHR 0x27) n)"
    using assms by (simp add: plain_name_def utf8_text_replace)
  have "list_all (\<lambda>c. c \<noteq> CHR 0x5C \<and> \<not> of_char c < (32 :: nat)) n"
    using assms by (simp add: plain_name_def)
  then show "list_all json_plain (replace (CHR 0x22) (CHR 0x27) n)"
    by (induction n) (auto simp add: json_plain_def)
qed

text \<open>The equations of the parser, for a text whose first byte is known.\<close>

lemma parse_value_Cons:
  "parse_value (Suc k) (c # cs) =
     (if c = CHR ''{'' then
        (case skip_ws cs of
           [] \<Rightarrow> None
         | d # ds \<Rightarrow>
             if d = CHR ''}'' then Some (JObject [], ds)
             else (case parse_members k (d # ds) of
                     None \<Rightarrow> None
                   | Some (ms, rest) \<Rightarrow> Some (JObject ms, rest)))
      else if c = CHR ''['' then
        (case skip_ws cs of
           [] \<Rightarrow> None
         | d # ds \<Rightarrow>
             if d = CHR '']'' then Some (JArray [], ds)
             else (case parse_elements k (d # ds) of
                     None \<Rightarrow> None
                   | Some (vs, rest) \<Rightarrow> Some (JArray vs, rest)))
      else if c = CHR 0x22 then
        (case scan_string cs of
           None \<Rightarrow> None
         | Some (body, rest) \<Rightarrow> Some (JString body, rest))
      else if c = CHR ''t'' then
        (case strip_prefix ''rue'' cs of None \<Rightarrow> None | Some rest \<Rightarrow> Some (JBool True, rest))
      else if c = CHR ''f'' then
        (case strip_prefix ''alse'' cs of None \<Rightarrow> None | Some rest \<Rightarrow> Some (JBool False, rest))
      else if c = CHR ''n'' then
        (case strip_prefix ''ull'' cs of None \<Rightarrow> None | Some rest \<Rightarrow> Some (JNull, rest))
      else
        (case scan_number (c # cs) of
           None \<Rightarrow> None
         | Some (lexeme, rest) \<Rightarrow> Some (JNumber lexeme, rest)))"
  by simp

lemma parse_members_Cons:
  "parse_members (Suc k) (q # qs) =
     (if q = CHR 0x22 then
        (case scan_string qs of
           None \<Rightarrow> None
         | Some (key, r0) \<Rightarrow>
             (case skip_ws r0 of
                [] \<Rightarrow> None
              | c # r1 \<Rightarrow>
                  if c = CHR '':'' then
                    (case parse_value k (skip_ws r1) of
                       None \<Rightarrow> None
                     | Some (v, r2) \<Rightarrow>
                         (case skip_ws r2 of
                            [] \<Rightarrow> None
                          | d # r3 \<Rightarrow>
                              if d = CHR '','' then
                                (case parse_members k (skip_ws r3) of
                                   None \<Rightarrow> None
                                 | Some (ms, rest) \<Rightarrow> Some ((key, v) # ms, rest))
                              else if d = CHR ''}'' then Some ([(key, v)], r3)
                              else None))
                  else None))
      else None)"
  by simp

lemmas scanner_defs =
  is_ws_def is_digit_def scan_number_def scan_int_def scan_frac_def scan_exp_def
  scan_digits1_def utf8_tail_def

lemma number_end_simps [simp]:
  "number_end (CHR '','')" "number_end (CHR ''}'')" "number_end (CHR '']'')"
  by (simp_all add: number_end_def)

text \<open>One record, with nine nested calls or more.\<close>

lemma parse_event:
  assumes plain: "plain_name (name r)" and fuel: "9 \<le> m"
  shows "parse_value m (CHR ''{'' # record_body r @ rest) = Some (event_json r, rest)"
proof -
  have m: "m = Suc (Suc (Suc (Suc (Suc (Suc (Suc (Suc (Suc (m - 9)))))))))"
    using fuel by simp
  have n: "utf8_text (replace (CHR 0x22) (CHR 0x27) (name r))"
    "list_all json_plain (replace (CHR 0x22) (CHR 0x27) (name r))"
    using plain by (rule plain_after_replace)+
  show ?thesis
    apply (subst m)
    apply (simp del: parse_value.simps parse_members.simps
        add: record_body_def event_json_def parse_value_Cons parse_members_Cons
          parse_value_show_int skip_ws_show_int scan_string_plain n scanner_defs)
    done
qed

text \<open>The records of an array, up to its closing bracket.\<close>

lemma parse_events:
  assumes "list_all (\<lambda>r. plain_name (name r)) (r0 # rs)" and "length rs + 10 \<le> m"
  shows "parse_elements m
           (CHR ''{'' # record_body r0 @ concat (map (\<lambda>r. '',{'' @ record_body r) rs) @
            CHR '']'' # rest) =
         Some (map event_json (r0 # rs), rest)"
  using assms
proof (induction rs arbitrary: r0 m)
  case Nil
  then obtain m' where m: "m = Suc m'" and m': "9 \<le> m'"
    by (cases m) auto
  have "parse_value m' (CHR ''{'' # record_body r0 @ CHR '']'' # rest) =
        Some (event_json r0, CHR '']'' # rest)"
    using Nil.prems(1) m' by (intro parse_event) simp_all
  then show ?case by (simp add: m is_ws_def)
next
  case (Cons r1 rs)
  then obtain m' where m: "m = Suc m'" and m': "length rs + 10 \<le> m'"
    by (cases m) auto
  let ?tail = "CHR ''{'' # record_body r1 @ concat (map (\<lambda>r. '',{'' @ record_body r) rs) @
            CHR '']'' # rest"
  have v: "parse_value m' (CHR ''{'' # record_body r0 @ CHR '','' # ?tail) =
        Some (event_json r0, CHR '','' # ?tail)"
    using Cons.prems(1) m' by (intro parse_event) simp_all
  have t: "parse_elements m' ?tail = Some (map event_json (r1 # rs), rest)"
    using Cons.prems(1) m' by (intro Cons.IH) simp_all
  show ?case
    using v t by (simp add: m is_ws_def)
qed

lemma length_events:
  "length rs \<le> length (concat (map (\<lambda>r. '',{'' @ record_body r) rs))"
  by (induction rs) auto

lemma parse_session_text:
  assumes "list_all (\<lambda>r. plain_name (name r)) rs"
  shows "parse_json (session_text rs) =
         Some (JObject [(''otherData'', JObject []),
                        (''traceEvents'', JArray (map event_json rs))])"
proof (cases rs)
  case Nil
  then show ?thesis
    by (simp add: parse_json_def session_text_def is_ws_def)
next
  case (Cons r0 rs')
  let ?ev = "CHR ''{'' # record_body r0 @ concat (map (\<lambda>r. '',{'' @ record_body r) rs') @
            CHR '']'' # ''}''"
  define c where "c = length (session_text rs) - 3"
  have len: "length (session_text rs) = Suc (Suc (Suc c))" and c: "length rs' + 10 \<le> c"
    using length_events [of rs'] by (simp_all add: c_def session_text_def Cons)
  have e: "parse_elements c ?ev = Some (map event_json (r0 # rs'), ''}'')"
    using assms c by (intro parse_events) (simp_all add: Cons)
  have "parse_value (Suc (Suc (Suc (Suc c)))) (session_text rs) =
        Some (JObject [(''otherData'', JObject []),
                       (''traceEvents'', JArray (map event_json rs))], [])"
    using e by (simp add: session_text_def Cons is_ws_def)
  moreover have "skip_ws (session_text rs) = session_text rs"
    by (simp add: session_text_def is_ws_def)
  ultimately show ?thesis
    by (simp add: parse_json_def len del: parse_value.simps)
qed

section \<open>The file of a session\<close>

lemma run_append:
  "run (cs @ ds) s = (case run cs s of Inl f \<Rightarrow> Inl f | Inr s' \<Rightarrow> run ds s')"
  by (induction cs arbitrary: s) (auto split: sum.splits)

lemma writes_recording:
  assumes "recording p s" and "first_record s = Some fr" and "files s p = Some old"
  shows "run (map Write rs) s =
     Inr (if rs = [] then s
          else s\<lparr>first_record := Some False,
                 files := (files s)(p \<mapsto> old @
                   (case rs of
                      [] \<Rightarrow> []
                    | r # rs' \<Rightarrow> (if fr then ''{'' else '',{'') @ record_body r @
                        concat (map (\<lambda>r. '',{'' @ record_body r) rs')))\<rparr>)"
  using assms
proof (induction rs arbitrary: s fr old)
  case Nil
  then show ?case by simp
next
  case (Cons r rs)
  let ?new = "old @ (if fr then ''{'' else '',{'') @ record_body r"
  let ?s = "s\<lparr>first_record := Some False, files := (files s)(p \<mapsto> ?new)\<rparr>"
  have w: "WriteRecord r s = Inr ?s"
    using Cons.prems by (auto simp add: recording_def recorder_defs)
  have "run (map Write rs) ?s =
     Inr (if rs = [] then ?s
          else ?s\<lparr>first_record := Some False,
                 files := (files ?s)(p \<mapsto> ?new @
                   (case rs of
                      [] \<Rightarrow> []
                    | r # rs' \<Rightarrow> (if False then ''{'' else '',{'') @ record_body r @
                        concat (map (\<lambda>r. '',{'' @ record_body r) rs')))\<rparr>)"
    by (rule Cons.IH) (use Cons.prems in \<open>simp_all add: recording_def\<close>)
  then show ?case using w by (cases rs) simp_all
qed

lemma EndSession_recording:
  assumes "recording p s" and "files s p = Some old"
  shows "EndSession s =
     Inr (s\<lparr>current_session := None, mutex := False,
            output_stream := \<lparr>attached = None, fail = False\<rparr>,
            files := (files s)(p \<mapsto> old @ '']}'')\<rparr>)"
  using assms by (auto simp add: recording_def recorder_defs)

lemma session_file:
  assumes "idle s"
  shows "file_after (Begin n p True # map Write rs @ [End]) s p = Some (session_text rs)"
proof -
  let ?h = \<open>''{"otherData": {},"traceEvents":[''\<close>
  let ?s1 = "s\<lparr>current_session := Some \<lparr>Name = n\<rparr>, mutex := False,
           output_stream := \<lparr>attached = Some p, fail = False\<rparr>,
           first_record := Some True,
           files := (files s)(p \<mapsto> ?h)\<rparr>"
  have b: "BeginSession n p True s = Inr ?s1"
    using assms by (rule BeginSession_idle_granted)
  have r1: "recording p ?s1"
    by (simp add: recording_def)
  obtain s2 where w: "run (map Write rs) ?s1 = Inr s2" and r2: "recording p s2"
    and f2: "files s2 p = Some (?h @ (case rs of
                      [] \<Rightarrow> []
                    | r # rs' \<Rightarrow> ''{'' @ record_body r @
                        concat (map (\<lambda>r. '',{'' @ record_body r) rs')))"
    using writes_recording [OF r1, of True ?h rs] r1
    by (cases rs) (simp_all add: recording_def)
  have "run (map Write rs @ [End]) ?s1 = EndSession s2"
    using w by (simp add: run_append split: sum.splits)
  then show ?thesis
    using b EndSession_recording [OF r2 f2]
    by (simp add: file_after_def session_text_def)
qed

text \<open>
  C1, as the code has it. The calls are made one at a time: each returns before the next
  starts. A session is a \<^verbatim>\<open>BeginSession\<close> whose file is granted, issued with no session
  open, the \<^verbatim>\<open>WriteRecord\<close> calls that follow it, and the \<^verbatim>\<open>EndSession\<close> that matches
  it. After that \<^verbatim>\<open>EndSession\<close> the file holds the header, the records and the footer,
  the first record after no comma and each later one after exactly one comma. When every
  name of a record is UTF-8 and holds no backslash and no control character, this text is
  a JSON text, an object whose \<open>traceEvents\<close> is an array with one element for each
  \<^verbatim>\<open>WriteRecord\<close> of the session, in the order of the calls.
\<close>

theorem session_file_is_trace:
  assumes "idle s"
  shows "file_after (Begin n p True # map Write rs @ [End]) s p = Some (session_text rs) \<and>
         (list_all (\<lambda>r. plain_name (name r)) rs \<longrightarrow>
            parse_json (session_text rs) =
              Some (JObject [(''otherData'', JObject []),
                             (''traceEvents'', JArray (map event_json rs))]) \<and>
            map_option length (trace_events (session_text rs)) = Some (length rs))"
  using session_file [OF assms] parse_session_text [of rs]
  by (simp add: trace_events_def)

theorem session_file_is_trace_witness:
  \<open>idle (Get Map.empty) \<and>
   file_after
     [Begin ''T'' ''out.json'' True,
      Write \<lparr>name = ''A'', start = 1000, end_time = 1500, thread_id = 7\<rparr>,
      Write \<lparr>name = ''say "hi"'', start = 1200, end_time = 1300, thread_id = 8\<rparr>,
      End] (Get Map.empty) ''out.json'' =
   Some (''{"otherData": {},"traceEvents":['' @
         ''{"cat":"function","dur":500,"name":"A","ph":"X","pid":0,"tid":7,"ts":1000}'' @
         '',{"cat":"function","dur":100,"name":"say '' @ [CHR 0x27] @ ''hi'' @ [CHR 0x27] @
         ''","ph":"X","pid":0,"tid":8,"ts":1200}'' @
         '']}'') \<and>
   map_option length
     (trace_events
        (''{"otherData": {},"traceEvents":['' @
         ''{"cat":"function","dur":500,"name":"A","ph":"X","pid":0,"tid":7,"ts":1000}'' @
         '',{"cat":"function","dur":100,"name":"say '' @ [CHR 0x27] @ ''hi'' @ [CHR 0x27] @
         ''","ph":"X","pid":0,"tid":8,"ts":1200}'' @
         '']}'')) = Some 2\<close>
  using session_file_is_trace
    [of "Get Map.empty" "''T''" "''out.json''"
        "[\<lparr>name = ''A'', start = 1000, end_time = 1500, thread_id = 7\<rparr>,
          \<lparr>name = ''say '' @ [CHR 0x22] @ ''hi'' @ [CHR 0x22], start = 1200, end_time = 1300,
            thread_id = 8\<rparr>]"]
    idle_Get [of Map.empty]
  by (auto simp add: session_text_def record_body_def plain_name_def utf8_tail_def
      show_int_def digits_lt10 digits_ge10 digit_char_def)

text \<open>
  C1, as stated, fails: the only byte \<^verbatim>\<open>WriteRecord\<close> replaces is the quotation mark.
  A record whose name is one backslash leaves a file in which the backslash escapes the
  quotation mark that should end the name, and the text is no JSON text.
\<close>

theorem backslash_name_counterexample:
  \<open>file_after
     [Begin ''T'' ''out.json'' True,
      Write \<lparr>name = [CHR 0x5C], start = 1000, end_time = 1500, thread_id = 7\<rparr>,
      End] (Recorder_init Map.empty) ''out.json'' =
   Some (''{"otherData": {},"traceEvents":[{"cat":"function","dur":500,"name":"'' @
         [CHR 0x5C] @ ''","ph":"X","pid":0,"tid":7,"ts":1000}]}'') \<and>
   parse_json
     (''{"otherData": {},"traceEvents":[{"cat":"function","dur":500,"name":"'' @
      [CHR 0x5C] @ ''","ph":"X","pid":0,"tid":7,"ts":1000}]}'') = None\<close>
proof
  show \<open>file_after
     [Begin ''T'' ''out.json'' True,
      Write \<lparr>name = [CHR 0x5C], start = 1000, end_time = 1500, thread_id = 7\<rparr>,
      End] (Recorder_init Map.empty) ''out.json'' =
   Some (''{"otherData": {},"traceEvents":[{"cat":"function","dur":500,"name":"'' @
         [CHR 0x5C] @ ''","ph":"X","pid":0,"tid":7,"ts":1000}]}'')\<close>
    by (simp add: file_after_def Recorder_init_def recorder_defs record_body_def show_int_def
        digits_lt10 digits_ge10 digit_char_def)
  show \<open>parse_json
     (''{"otherData": {},"traceEvents":[{"cat":"function","dur":500,"name":"'' @
      [CHR 0x5C] @ ''","ph":"X","pid":0,"tid":7,"ts":1000}]}'') = None\<close>
    by (simp add: parse_json_def scanner_defs)
qed

text \<open>
  Calls that overlap are outside the theorem above. The flag is tested and cleared before
  the lock is taken: a \<^verbatim>\<open>WriteRecord\<close> that built its text before a \<^verbatim>\<open>BeginSession\<close> and
  reaches the lock after it writes \<^verbatim>\<open>,{\<close> as the first record of the session.
\<close>

lemma late_commit_leading_comma:
  \<open>file_after_steps
     [Format \<lparr>name = ''A'', start = 1000, end_time = 1500, thread_id = 7\<rparr>,
      Whole (Begin ''T'' ''out.json'' True),
      Commit,
      Whole End] (Get Map.empty) ''out.json'' =
   Some ''{"otherData": {},"traceEvents":[,{"cat":"function","dur":500,"name":"A","ph":"X","pid":0,"tid":7,"ts":1000}]}''\<close>
  \<open>parse_json
     ''{"otherData": {},"traceEvents":[,{"cat":"function","dur":500,"name":"A","ph":"X","pid":0,"tid":7,"ts":1000}]}'' =
   None\<close>
  by (simp_all add: file_after_steps_def Get_def Recorder_init_def recorder_defs record_body_def
      show_int_def digits_lt10 digits_ge10 digit_char_def parse_json_def scanner_defs)

text \<open>A name that is not UTF-8 leaves a file that is no JSON text either.\<close>

lemma non_utf8_name_not_json:
  \<open>parse_json
     (session_text [\<lparr>name = [CHR 0xFF], start = 1000, end_time = 1500, thread_id = 7\<rparr>]) =
   None\<close>
  by (simp add: session_text_def record_body_def show_int_def digits_lt10 digits_ge10
      digit_char_def parse_json_def scanner_defs)

section \<open>The recogniser on examples\<close>

lemma parse_json_accepts:
  \<open>parse_json
     ('' [ -12.5e+3 , true,false,null,[],{} , {"k" : "a'' @ [CHR 0x5C] @ ''n'' @ [CHR 0x5C] @
      ''u00e9"} ] '') =
   Some (JArray
     [JNumber ''-12.5e+3'', JBool True, JBool False, JNull, JArray [], JObject [],
      JObject [(''k'', JString (''a'' @ [CHR 0x5C] @ ''n'' @ [CHR 0x5C] @ ''u00e9''))]])\<close>
  \<open>parse_json (''"caf'' @ [CHR 0xC3, CHR 0xA9] @ '' '' @ [CHR 0xE2, CHR 0x82, CHR 0xAC] @ '' '' @
      [CHR 0xF0, CHR 0x9F, CHR 0x98, CHR 0x80] @ ''"'') =
   Some (JString (''caf'' @ [CHR 0xC3, CHR 0xA9] @ '' '' @ [CHR 0xE2, CHR 0x82, CHR 0xAC] @ '' '' @
      [CHR 0xF0, CHR 0x9F, CHR 0x98, CHR 0x80]))\<close>
  by (simp_all add: parse_json_def scanner_defs is_hex_def)

lemma parse_json_rejects:
  \<open>parse_json ''[1,]'' = None\<close>
  \<open>parse_json ''[01]'' = None\<close>
  \<open>parse_json ''{"a":1,}'' = None\<close>
  \<open>parse_json ''{"a" 1}'' = None\<close>
  \<open>parse_json ''[1] x'' = None\<close>
  \<open>parse_json (''"a'' @ [CHR 0x0A] @ ''b"'') = None\<close>
  \<open>parse_json (''"a'' @ [CHR 0x5C] @ ''x"'') = None\<close>
  \<open>parse_json (''"a'' @ [CHR 0xFF] @ ''b"'') = None\<close>
  \<open>parse_json (''"a'' @ [CHR 0xC3] @ ''b"'') = None\<close>
  \<open>parse_json (''"a'' @ [CHR 0xC0, CHR 0xAF] @ ''b"'') = None\<close>
  \<open>parse_json (''"a'' @ [CHR 0xED, CHR 0xA0, CHR 0x80] @ ''b"'') = None\<close>
  by (simp_all add: parse_json_def scanner_defs is_hex_def)

section \<open>The bound on nested calls rejects no JSON text\<close>

declare parse_value.simps [simp del] parse_elements.simps [simp del]
  parse_members.simps [simp del]

lemma length_skip_ws: "length (skip_ws s) \<le> length s"
  by (induction s) auto

lemma strip_prefix_shorter: "strip_prefix p s = Some r \<Longrightarrow> length r \<le> length s"
  by (induction p s rule: strip_prefix.induct) (auto split: if_splits)


lemma scan_string_shorter: "scan_string cs = Some (b, r) \<Longrightarrow> length r < length cs"
proof (induction "length cs" arbitrary: cs b r rule: less_induct)
  case less
  show ?case
  proof (cases cs)
    case Nil
    with less.prems show ?thesis by simp
  next
    case (Cons c cs')
    show ?thesis
    proof (cases "c = CHR 0x22")
      case True
      with less.prems Cons show ?thesis by simp
    next
      case nq: False
      show ?thesis
      proof (cases "c = CHR 0x5C")
        case False
        with less.prems Cons nq obtain k b' where
          "scan_string (drop k cs') = Some (b', r)"
          by (auto split: if_splits option.splits)
        then have "length r < length (drop k cs')"
          using less.hyps [of "drop k cs'" b' r] Cons by simp
        then show ?thesis using Cons by simp
      next
        case True
        from less.prems Cons nq True obtain e es where es: "cs' = e # es"
          by (cases cs') auto
        show ?thesis
        proof (cases "e = CHR ''u''")
          case False
          with less.prems Cons nq True es obtain b' where "scan_string es = Some (b', r)"
            by (auto split: if_splits option.splits)
          then have "length r < length es"
            using less.hyps [of es b' r] Cons es by simp
          then show ?thesis using Cons es by simp
        next
          case u: True
          with less.prems Cons nq True es obtain h1 h2 h3 h4 es' where
            es': "es = h1 # h2 # h3 # h4 # es'"
            by (auto split: list.splits)
          with less.prems Cons nq True es u obtain b' where "scan_string es' = Some (b', r)"
            by (auto split: if_splits option.splits)
          then have "length r < length es'"
            using less.hyps [of es' b' r] Cons es es' by simp
          then show ?thesis using Cons es es' by simp
        qed
      qed
    qed
  qed
qed

lemma scan_int_shorter: "scan_int s = Some (l, r) \<Longrightarrow> length r < length s"
  by (cases s) (auto simp add: scan_int_def less_Suc_eq_le length_dropWhile_le split: if_splits)

lemma scan_digits1_shorter: "scan_digits1 s = Some (l, r) \<Longrightarrow> length r \<le> length s"
  by (auto simp add: scan_digits1_def length_dropWhile_le split: if_splits)

lemma scan_frac_shorter: "scan_frac s = Some (l, r) \<Longrightarrow> length r \<le> length s"
proof (cases s)
  case Nil
  assume "scan_frac s = Some (l, r)"
  with Nil show ?thesis by (simp add: scan_frac_def)
next
  case (Cons c cs)
  assume a: "scan_frac s = Some (l, r)"
  show ?thesis
  proof (cases "c = CHR ''.''")
    case True
    with a Cons obtain ds where "scan_digits1 cs = Some (ds, r)"
      by (auto simp add: scan_frac_def split: option.splits)
    then show ?thesis using scan_digits1_shorter Cons by fastforce
  next
    case False
    with a Cons show ?thesis by (simp add: scan_frac_def)
  qed
qed

lemma scan_exp_shorter: "scan_exp s = Some (l, r) \<Longrightarrow> length r \<le> length s"
proof (cases s)
  case Nil
  assume "scan_exp s = Some (l, r)"
  with Nil show ?thesis by (simp add: scan_exp_def)
next
  case (Cons c cs)
  assume a: "scan_exp s = Some (l, r)"
  show ?thesis
  proof (cases "c = CHR ''e'' \<or> c = CHR ''E''")
    case False
    with a Cons show ?thesis by (auto simp add: scan_exp_def)
  next
    case True
    with a Cons obtain g gs where g: "cs = g # gs"
      by (cases cs) (auto simp add: scan_exp_def)
    show ?thesis
    proof (cases "g = CHR ''+'' \<or> g = CHR ''-''")
      case sg: True
      with a Cons True g obtain ds where "scan_digits1 gs = Some (ds, r)"
        by (auto simp add: scan_exp_def split: option.splits)
      then have "length r \<le> length gs" by (rule scan_digits1_shorter)
      then show ?thesis using Cons g by simp
    next
      case sg: False
      with a Cons True g obtain ds where "scan_digits1 cs = Some (ds, r)"
        by (auto simp add: scan_exp_def split: option.splits)
      then have "length r \<le> length cs" by (rule scan_digits1_shorter)
      then show ?thesis using Cons by simp
    qed
  qed
qed

lemma scan_number_shorter:
  assumes "scan_number s = Some (l, r)"
  shows "length r < length s"
proof -
  obtain sg s1 where sg: "(case s of [] \<Rightarrow> ([], s) | c # cs \<Rightarrow> if c = CHR ''-'' then ([c], cs) else ([], s)) = (sg, s1)"
    by (cases "(case s of [] \<Rightarrow> ([], s) | c # cs \<Rightarrow> if c = CHR ''-'' then ([c], cs) else ([], s))") auto
  then have l1: "length s1 \<le> length s"
    by (auto split: list.splits if_splits)
  from assms sg obtain i s2 where i: "scan_int s1 = Some (i, s2)"
    by (auto simp add: scan_number_def split: option.splits)
  from assms sg i obtain f s3 where f: "scan_frac s2 = Some (f, s3)"
    by (auto simp add: scan_number_def split: option.splits)
  from assms sg i f obtain e where e: "scan_exp s3 = Some (e, r)"
    by (auto simp add: scan_number_def split: option.splits)
  show ?thesis
    using l1 scan_int_shorter [OF i] scan_frac_shorter [OF f] scan_exp_shorter [OF e] by simp
qed


lemma parse_elements_more:
  "parse_value k s = Some (v, r) \<Longrightarrow> skip_ws r = CHR '','' # cs \<Longrightarrow>
   parse_elements k (skip_ws cs) = Some (vs, rest) \<Longrightarrow>
   parse_elements (Suc k) s = Some (v # vs, rest)"
  by (simp add: parse_elements.simps)

lemma parse_elements_last:
  "parse_value k s = Some (v, r) \<Longrightarrow> skip_ws r = CHR '']'' # cs \<Longrightarrow>
   parse_elements (Suc k) s = Some ([v], cs)"
  by (simp add: parse_elements.simps)

lemma parse_elements_SomeE:
  assumes "parse_elements k s = Some x"
  obtains (more) k' v r cs vs rest where "k = Suc k'" "parse_value k' s = Some (v, r)"
      "skip_ws r = CHR '','' # cs" "parse_elements k' (skip_ws cs) = Some (vs, rest)"
      "x = (v # vs, rest)"
  | (last) k' v r cs where "k = Suc k'" "parse_value k' s = Some (v, r)"
      "skip_ws r = CHR '']'' # cs" "x = ([v], cs)"
proof (cases k)
  case 0
  with assms show ?thesis by (simp add: parse_elements.simps)
next
  case (Suc k')
  with assms obtain v r where pv: "parse_value k' s = Some (v, r)"
    by (auto simp add: parse_elements.simps split: option.splits)
  with assms Suc obtain c cs where sk: "skip_ws r = c # cs"
    by (auto simp add: parse_elements.simps split: list.splits)
  show ?thesis
  proof (cases "c = CHR '',''")
    case True
    with assms Suc pv sk obtain vs rest where "parse_elements k' (skip_ws cs) = Some (vs, rest)"
      "x = (v # vs, rest)"
      by (auto simp add: parse_elements.simps split: option.splits)
    then show ?thesis using more Suc pv sk True by blast
  next
    case False
    with assms Suc pv sk have "c = CHR '']''" "x = ([v], cs)"
      by (auto simp add: parse_elements.simps split: if_splits)
    then show ?thesis using last Suc pv sk by blast
  qed
qed

lemma parse_members_more:
  "scan_string qs = Some (key, r0) \<Longrightarrow> skip_ws r0 = CHR '':'' # r1 \<Longrightarrow>
   parse_value k (skip_ws r1) = Some (v, r2) \<Longrightarrow> skip_ws r2 = CHR '','' # r3 \<Longrightarrow>
   parse_members k (skip_ws r3) = Some (ms, rest) \<Longrightarrow>
   parse_members (Suc k) (CHR 0x22 # qs) = Some ((key, v) # ms, rest)"
  by (simp add: parse_members.simps)

lemma parse_members_last:
  "scan_string qs = Some (key, r0) \<Longrightarrow> skip_ws r0 = CHR '':'' # r1 \<Longrightarrow>
   parse_value k (skip_ws r1) = Some (v, r2) \<Longrightarrow> skip_ws r2 = CHR ''}'' # r3 \<Longrightarrow>
   parse_members (Suc k) (CHR 0x22 # qs) = Some ([(key, v)], r3)"
  by (simp add: parse_members.simps)

lemma parse_members_SomeE:
  assumes "parse_members k s = Some x"
  obtains (more) k' qs key r0 r1 v r2 r3 ms rest where "k = Suc k'" "s = CHR 0x22 # qs"
      "scan_string qs = Some (key, r0)" "skip_ws r0 = CHR '':'' # r1"
      "parse_value k' (skip_ws r1) = Some (v, r2)" "skip_ws r2 = CHR '','' # r3"
      "parse_members k' (skip_ws r3) = Some (ms, rest)" "x = ((key, v) # ms, rest)"
  | (last) k' qs key r0 r1 v r2 r3 where "k = Suc k'" "s = CHR 0x22 # qs"
      "scan_string qs = Some (key, r0)" "skip_ws r0 = CHR '':'' # r1"
      "parse_value k' (skip_ws r1) = Some (v, r2)" "skip_ws r2 = CHR ''}'' # r3"
      "x = ([(key, v)], r3)"
proof (cases k)
  case 0
  with assms show ?thesis by (simp add: parse_members.simps)
next
  case (Suc k')
  with assms obtain qs where s: "s = CHR 0x22 # qs"
    by (cases s) (auto simp add: parse_members.simps split: if_splits)
  with assms Suc obtain key r0 where ss: "scan_string qs = Some (key, r0)"
    by (auto simp add: parse_members.simps split: option.splits)
  with assms Suc s obtain r1 where c: "skip_ws r0 = CHR '':'' # r1"
    by (auto simp add: parse_members.simps split: list.splits if_splits)
  with assms Suc s ss obtain v r2 where pv: "parse_value k' (skip_ws r1) = Some (v, r2)"
    by (auto simp add: parse_members.simps split: option.splits)
  with assms Suc s ss c obtain d r3 where sk: "skip_ws r2 = d # r3"
    by (auto simp add: parse_members.simps split: list.splits)
  show ?thesis
  proof (cases "d = CHR '',''")
    case True
    with assms Suc s ss c pv sk obtain ms rest where
      "parse_members k' (skip_ws r3) = Some (ms, rest)" "x = ((key, v) # ms, rest)"
      by (auto simp add: parse_members.simps split: option.splits)
    then show ?thesis using more Suc s ss c pv sk True by blast
  next
    case False
    with assms Suc s ss c pv sk have "d = CHR ''}''" "x = ([(key, v)], r3)"
      by (auto simp add: parse_members.simps split: if_splits)
    then show ?thesis using last Suc s ss c pv sk by blast
  qed
qed

lemma parse_value_empty_object:
  "skip_ws cs = CHR ''}'' # ds \<Longrightarrow> parse_value (Suc k) (CHR ''{'' # cs) = Some (JObject [], ds)"
  by (simp add: parse_value.simps)

lemma parse_value_object:
  "skip_ws cs = d # ds \<Longrightarrow> d \<noteq> CHR ''}'' \<Longrightarrow> parse_members k (d # ds) = Some (ms, rest) \<Longrightarrow>
   parse_value (Suc k) (CHR ''{'' # cs) = Some (JObject ms, rest)"
  by (simp add: parse_value.simps)

lemma parse_value_empty_array:
  "skip_ws cs = CHR '']'' # ds \<Longrightarrow> parse_value (Suc k) (CHR ''['' # cs) = Some (JArray [], ds)"
  by (simp add: parse_value.simps)

lemma parse_value_array:
  "skip_ws cs = d # ds \<Longrightarrow> d \<noteq> CHR '']'' \<Longrightarrow> parse_elements k (d # ds) = Some (vs, rest) \<Longrightarrow>
   parse_value (Suc k) (CHR ''['' # cs) = Some (JArray vs, rest)"
  by (simp add: parse_value.simps)

lemma parse_value_scalar:
  "c \<noteq> CHR ''{'' \<Longrightarrow> c \<noteq> CHR ''['' \<Longrightarrow>
   parse_value (Suc k) (c # cs) = parse_value (Suc 0) (c # cs)"
  by (simp add: parse_value.simps)

lemma parse_value_scalar_shorter:
  assumes "c \<noteq> CHR ''{''" and "c \<noteq> CHR ''[''" and "parse_value (Suc 0) (c # cs) = Some (v, r)"
  shows "length r < length (c # cs)"
proof -
  consider (str) "c = CHR 0x22" | (t) "c = CHR ''t''" | (f) "c = CHR ''f''" | (n) "c = CHR ''n''"
    | (num) "c \<noteq> CHR 0x22" "c \<noteq> CHR ''t''" "c \<noteq> CHR ''f''" "c \<noteq> CHR ''n''"
    by blast
  then show ?thesis
  proof cases
    case str
    with assms obtain b where "scan_string cs = Some (b, r)"
      by (auto simp add: parse_value.simps split: option.splits)
    then show ?thesis using scan_string_shorter by fastforce
  next
    case t
    with assms have "strip_prefix ''rue'' cs = Some r"
      by (auto simp add: parse_value.simps split: option.splits)
    then show ?thesis using strip_prefix_shorter by fastforce
  next
    case f
    with assms have "strip_prefix ''alse'' cs = Some r"
      by (auto simp add: parse_value.simps split: option.splits)
    then show ?thesis using strip_prefix_shorter by fastforce
  next
    case n
    with assms have "strip_prefix ''ull'' cs = Some r"
      by (auto simp add: parse_value.simps split: option.splits)
    then show ?thesis using strip_prefix_shorter by fastforce
  next
    case num
    with assms obtain l where "scan_number (c # cs) = Some (l, r)"
      by (auto simp add: parse_value.simps split: option.splits)
    then show ?thesis by (rule scan_number_shorter)
  qed
qed

lemma parse_value_SomeE:
  assumes "parse_value k s = Some x"
  obtains (empty_object) k' cs ds where "k = Suc k'" "s = CHR ''{'' # cs"
      "skip_ws cs = CHR ''}'' # ds" "x = (JObject [], ds)"
  | (object) k' cs d ds ms rest where "k = Suc k'" "s = CHR ''{'' # cs" "skip_ws cs = d # ds"
      "d \<noteq> CHR ''}''" "parse_members k' (d # ds) = Some (ms, rest)" "x = (JObject ms, rest)"
  | (empty_array) k' cs ds where "k = Suc k'" "s = CHR ''['' # cs"
      "skip_ws cs = CHR '']'' # ds" "x = (JArray [], ds)"
  | (array) k' cs d ds vs rest where "k = Suc k'" "s = CHR ''['' # cs" "skip_ws cs = d # ds"
      "d \<noteq> CHR '']''" "parse_elements k' (d # ds) = Some (vs, rest)" "x = (JArray vs, rest)"
  | (scalar) k' c cs where "k = Suc k'" "s = c # cs" "c \<noteq> CHR ''{''" "c \<noteq> CHR ''[''"
      "parse_value (Suc 0) (c # cs) = Some x"
proof (cases k)
  case 0
  with assms show ?thesis by (simp add: parse_value.simps)
next
  case (Suc k')
  with assms obtain c cs where s: "s = c # cs"
    by (cases s) (auto simp add: parse_value.simps)
  consider (ob) "c = CHR ''{''" | (ar) "c = CHR ''[''" | (sc) "c \<noteq> CHR ''{''" "c \<noteq> CHR ''[''"
    by blast
  then show ?thesis
  proof cases
    case ob
    with assms Suc s obtain d ds where sk: "skip_ws cs = d # ds"
      by (auto simp add: parse_value.simps split: list.splits)
    show ?thesis
    proof (cases "d = CHR ''}''")
      case True
      with assms Suc s ob sk have "x = (JObject [], ds)"
        by (simp add: parse_value.simps)
      then show ?thesis using empty_object Suc s ob sk True by blast
    next
      case False
      with assms Suc s ob sk obtain ms rest where
        "parse_members k' (d # ds) = Some (ms, rest)" "x = (JObject ms, rest)"
        by (auto simp add: parse_value.simps split: option.splits)
      then show ?thesis using object Suc s ob sk False by blast
    qed
  next
    case ar
    with assms Suc s obtain d ds where sk: "skip_ws cs = d # ds"
      by (auto simp add: parse_value.simps split: list.splits)
    show ?thesis
    proof (cases "d = CHR '']''")
      case True
      with assms Suc s ar sk have "x = (JArray [], ds)"
        by (simp add: parse_value.simps)
      then show ?thesis using empty_array Suc s ar sk True by blast
    next
      case False
      with assms Suc s ar sk obtain vs rest where
        "parse_elements k' (d # ds) = Some (vs, rest)" "x = (JArray vs, rest)"
        by (auto simp add: parse_value.simps split: option.splits)
      then show ?thesis using array Suc s ar sk False by blast
    qed
  next
    case sc
    then have "parse_value (Suc 0) (c # cs) = Some x"
      using assms Suc s parse_value_scalar [of c k' cs] by simp
    then show ?thesis using scalar Suc s sc by blast
  qed
qed

lemma enoughD1: "enough f k \<Longrightarrow> f k s = Some (v, r) \<Longrightarrow> length r < length s"
  unfolding enough_def by blast

lemma enoughD2:
  "enough f k \<Longrightarrow> f k s = Some (v, r) \<Longrightarrow> length s - length r \<le> j \<Longrightarrow> f j s = Some (v, r)"
  unfolding enough_def by blast

lemma enoughI:
  assumes l: "\<And>s v r. f k s = Some (v, r) \<Longrightarrow> length r < length s"
    and e: "\<And>s v r j. f k s = Some (v, r) \<Longrightarrow> length s - length r \<le> Suc j \<Longrightarrow>
           f (Suc j) s = Some (v, r)"
  shows "enough f k"
  unfolding enough_def
proof (intro allI impI conjI)
  fix s v r
  assume a: "f k s = Some (v, r)"
  show "length r < length s" using a by (rule l)
next
  fix s v r j
  assume a: "f k s = Some (v, r)" and j: "length s - length r \<le> j"
  have "length r < length s" using a by (rule l)
  with j obtain j' where j': "j = Suc j'" by (cases j) auto
  show "f j s = Some (v, r)"
    unfolding j' using a j [unfolded j'] by (rule e)
qed


lemma enough_value:
  assumes E: "enough parse_elements k" and M: "enough parse_members k"
  shows "enough parse_value (Suc k)"
proof (rule enoughI)
  fix s v r
  assume a: "parse_value (Suc k) s = Some (v, r)"
  from a show "length r < length s"
  proof (cases rule: parse_value_SomeE)
    case (empty_object k' cs ds)
    then show ?thesis using length_skip_ws [of cs] by simp
  next
    case (object k' cs d ds ms rest)
    then show ?thesis using length_skip_ws [of cs] enoughD1 [OF M, of "d # ds" ms rest] by simp
  next
    case (empty_array k' cs ds)
    then show ?thesis using length_skip_ws [of cs] by simp
  next
    case (array k' cs d ds vs rest)
    then show ?thesis using length_skip_ws [of cs] enoughD1 [OF E, of "d # ds" vs rest] by simp
  next
    case (scalar k' c cs)
    then show ?thesis using parse_value_scalar_shorter [of c cs v r] by simp
  qed
next
  fix s v r j
  assume a: "parse_value (Suc k) s = Some (v, r)" and j: "length s - length r \<le> Suc j"
  from a show "parse_value (Suc j) s = Some (v, r)"
  proof (cases rule: parse_value_SomeE)
    case (empty_object k' cs ds)
    then show ?thesis by (simp add: parse_value_empty_object)
  next
    case (object k' cs d ds ms rest)
    have "length (d # ds) - length rest \<le> j"
      using j object length_skip_ws [of cs] by simp
    then have "parse_members j (d # ds) = Some (ms, rest)"
      using enoughD2 [OF M, of "d # ds" ms rest j] object by simp
    then show ?thesis using object by (simp add: parse_value_object)
  next
    case (empty_array k' cs ds)
    then show ?thesis by (simp add: parse_value_empty_array)
  next
    case (array k' cs d ds vs rest)
    have "length (d # ds) - length rest \<le> j"
      using j array length_skip_ws [of cs] by simp
    then have "parse_elements j (d # ds) = Some (vs, rest)"
      using enoughD2 [OF E, of "d # ds" vs rest j] array by simp
    then show ?thesis using array by (simp add: parse_value_array)
  next
    case (scalar k' c cs)
    then show ?thesis by (simp add: parse_value_scalar [of c j cs])
  qed
qed


lemma enough_elements:
  assumes V: "enough parse_value k" and E: "enough parse_elements k"
  shows "enough parse_elements (Suc k)"
proof (rule enoughI)
  fix s vs r
  assume a: "parse_elements (Suc k) s = Some (vs, r)"
  from a show "length r < length s"
  proof (cases rule: parse_elements_SomeE)
    case (more k' v r1 cs vs' rest)
    then show ?thesis
      using enoughD1 [OF V, of s v r1] length_skip_ws [of r1] length_skip_ws [of cs]
        enoughD1 [OF E, of "skip_ws cs" vs' rest]
      by simp
  next
    case (last k' v r1 cs)
    then show ?thesis
      using enoughD1 [OF V, of s v r1] length_skip_ws [of r1] by simp
  qed
next
  fix s vs r j
  assume a: "parse_elements (Suc k) s = Some (vs, r)" and j: "length s - length r \<le> Suc j"
  from a show "parse_elements (Suc j) s = Some (vs, r)"
  proof (cases rule: parse_elements_SomeE)
    case (more k' v r1 cs vs' rest)
    have l: "length r1 < length s" "length rest < length (skip_ws cs)"
      using enoughD1 [OF V, of s v r1] enoughD1 [OF E, of "skip_ws cs" vs' rest] more by simp_all
    have "length s - length r1 \<le> j" "length (skip_ws cs) - length rest \<le> j"
      using j l more length_skip_ws [of r1] length_skip_ws [of cs] by simp_all
    then have "parse_value j s = Some (v, r1)"
      "parse_elements j (skip_ws cs) = Some (vs', rest)"
      using enoughD2 [OF V, of s v r1 j] enoughD2 [OF E, of "skip_ws cs" vs' rest j] more
      by simp_all
    then show ?thesis using more by (simp add: parse_elements_more)
  next
    case (last k' v r1 cs)
    have l: "length r1 < length s"
      using enoughD1 [OF V, of s v r1] last by simp
    have "length s - length r1 \<le> j"
      using j l last length_skip_ws [of r1] by simp
    then have "parse_value j s = Some (v, r1)"
      using enoughD2 [OF V, of s v r1 j] last by simp
    then show ?thesis using last by (simp add: parse_elements_last)
  qed
qed


lemma enough_members:
  assumes V: "enough parse_value k" and M: "enough parse_members k"
  shows "enough parse_members (Suc k)"
proof (rule enoughI)
  fix s ms r
  assume a: "parse_members (Suc k) s = Some (ms, r)"
  from a show "length r < length s"
  proof (cases rule: parse_members_SomeE)
    case (more k' qs key r0 r1 v r2 r3 ms' rest)
    then show ?thesis
      using scan_string_shorter [of qs key r0] length_skip_ws [of r0] length_skip_ws [of r1]
        enoughD1 [OF V, of "skip_ws r1" v r2] length_skip_ws [of r2] length_skip_ws [of r3]
        enoughD1 [OF M, of "skip_ws r3" ms' rest]
      by simp
  next
    case (last k' qs key r0 r1 v r2 r3)
    then show ?thesis
      using scan_string_shorter [of qs key r0] length_skip_ws [of r0] length_skip_ws [of r1]
        enoughD1 [OF V, of "skip_ws r1" v r2] length_skip_ws [of r2]
      by simp
  qed
next
  fix s ms r j
  assume a: "parse_members (Suc k) s = Some (ms, r)" and j: "length s - length r \<le> Suc j"
  from a show "parse_members (Suc j) s = Some (ms, r)"
  proof (cases rule: parse_members_SomeE)
    case (more k' qs key r0 r1 v r2 r3 ms' rest)
    have l: "length r0 < length qs" "length r2 < length (skip_ws r1)"
      "length rest < length (skip_ws r3)"
      using scan_string_shorter [of qs key r0] enoughD1 [OF V, of "skip_ws r1" v r2]
        enoughD1 [OF M, of "skip_ws r3" ms' rest] more by simp_all
    have "length (skip_ws r1) - length r2 \<le> j" "length (skip_ws r3) - length rest \<le> j"
      using j l more length_skip_ws [of r0] length_skip_ws [of r1] length_skip_ws [of r2]
        length_skip_ws [of r3] by simp_all
    then have "parse_value j (skip_ws r1) = Some (v, r2)"
      "parse_members j (skip_ws r3) = Some (ms', rest)"
      using enoughD2 [OF V, of "skip_ws r1" v r2 j] enoughD2 [OF M, of "skip_ws r3" ms' rest j]
        more by simp_all
    then show ?thesis using more by (simp add: parse_members_more)
  next
    case (last k' qs key r0 r1 v r2 r3)
    have l: "length r0 < length qs" "length r2 < length (skip_ws r1)"
      using scan_string_shorter [of qs key r0] enoughD1 [OF V, of "skip_ws r1" v r2]
        last by simp_all
    have "length (skip_ws r1) - length r2 \<le> j"
      using j l last length_skip_ws [of r0] length_skip_ws [of r1] length_skip_ws [of r2]
      by simp
    then have "parse_value j (skip_ws r1) = Some (v, r2)"
      using enoughD2 [OF V, of "skip_ws r1" v r2 j] last by simp
    then show ?thesis using last by (simp add: parse_members_last)
  qed
qed


lemma enough_all: "enough parse_value k \<and> enough parse_elements k \<and> enough parse_members k"
proof (induction k)
  case 0
  show ?case
    by (simp add: enough_def parse_value.simps parse_elements.simps parse_members.simps)
next
  case (Suc k)
  then have V: "enough parse_value k" and E: "enough parse_elements k"
    and M: "enough parse_members k"
    by simp_all
  show ?case
    using enough_value [OF E M] enough_elements [OF V E] enough_members [OF V M] by simp
qed

text \<open>
  The bound on nested calls in \<open>parse_json\<close> rejects no text: what the parser reads
  with any number of nested calls, it reads with the number \<open>parse_json\<close> allows.
\<close>

lemma parse_json_complete:
  assumes "parse_value k (skip_ws s) = Some (v, r)" and "skip_ws r = []"
  shows "parse_json s = Some v"
proof -
  have V: "enough parse_value k"
    using enough_all [of k] by (rule conjunct1)
  have "length (skip_ws s) - length r \<le> Suc (length s)"
    using length_skip_ws [of s] by simp
  with V assms(1) have "parse_value (Suc (length s)) (skip_ws s) = Some (v, r)"
    by (rule enoughD2)
  then show ?thesis
    using assms(2) by (simp add: parse_json_def)
qed

text \<open>A text that \<open>parse_json\<close> rejects is read as a JSON text with no number of nested calls.\<close>

lemma parse_json_None:
  assumes "parse_json s = None" and "parse_value k (skip_ws s) = Some (v, r)"
  shows "skip_ws r \<noteq> []"
proof
  assume "skip_ws r = []"
  with assms(2) have "parse_json s = Some v"
    by (rule parse_json_complete)
  with assms(1) show False by simp
qed

end
